theory Spec2Isabelle
  imports Main "HOL-Library.Word" "HOL-Library.Sublist" "HOL-Library.Multiset"
begin

unbundle bit_operations_syntax

section \<open>GCSA construction primitives: support.h and internal.h\<close>

text \<open>
  A shallow embedding of the key codec, the node codec, the path node comparisons and the
  LCP range extension of \<^verbatim>\<open>support.h\<close>, and of \<^verbatim>\<open>ValueIndex\<close>,
  \<^verbatim>\<open>SLArray\<close> and \<^verbatim>\<open>PriorityQueue\<close> of \<^verbatim>\<open>internal.h\<close>.

  \<^verbatim>\<open>utils.h\<close> is not among the sources. Its integer types are taken as the
  specification gives them: \<^verbatim>\<open>size_type\<close>, \<^verbatim>\<open>key_type\<close> and
  \<^verbatim>\<open>node_type\<close> are unsigned 64-bit words, \<^verbatim>\<open>byte_type\<close> and
  \<^verbatim>\<open>comp_type\<close> are unsigned bytes, \<^verbatim>\<open>rank_type\<close> is
  \<^verbatim>\<open>std::uint32_t\<close>. Lengths of and indices into in-memory vectors are
  natural numbers.
\<close>

type_synonym size_type = "64 word"
type_synonym key_type = "64 word"
type_synonym node_type = "64 word"
type_synonym byte_type = "8 word"
type_synonym comp_type = "8 word"
type_synonym rank_type = "32 word"

subsection \<open>Alphabet\<close>

text \<open>
  The public fields of \<^verbatim>\<open>class Alphabet\<close>. \<^verbatim>\<open>char2comp\<close> is a byte table
  indexed by the character's byte value, \<^verbatim>\<open>comp2char\<close> a table of characters indexed
  by comp value. Neither table is read with a bounds check in the source: a read of
  \<^verbatim>\<open>char2comp\<close> outside the table is undefined there and is the result \<open>None\<close>
  of \<^verbatim>\<open>Key::encode\<close> here.
\<close>

record Alphabet =
  char2comp :: "byte_type list"
  comp2char :: "char list"
  C :: "size_type list"
  sigma :: size_type

subsection \<open>Key codec\<close>

definition CHAR_WIDTH :: nat where
  "CHAR_WIDTH = 3"

definition CHAR_MASK :: key_type where
  "CHAR_MASK = 0x7"

definition MAX_LENGTH :: nat where
  "MAX_LENGTH = 16"

definition PRED_SUCC_MASK :: key_type where
  "PRED_SUCC_MASK = 0xFFFF"

text \<open>
  \<^verbatim>\<open>alpha.char2comp[kmer[i]]\<close> indexes the table with a plain \<^verbatim>\<open>char\<close>, which
  is converted to the \<^verbatim>\<open>size_type\<close> index of \<^verbatim>\<open>int_vector::operator[]\<close>. Whether
  plain \<^verbatim>\<open>char\<close> is signed is fixed by the compiler, so it is a parameter here. Where
  it is signed, a byte of \<open>0x80\<close> or more is a negative character, and its conversion
  to 64 bits unsigned is \<open>2^64 - 256 + byte\<close>; otherwise the index is the byte value.
\<close>

definition char_index :: "bool \<Rightarrow> char \<Rightarrow> size_type" where
  "char_index char_signed c =
     (if char_signed \<and> 128 \<le> (of_char c :: nat)
      then of_nat (of_char c) - 256
      else of_nat (of_char c))"

text \<open>One round of the loop of \<^verbatim>\<open>Key::encode\<close>:
  \<^verbatim>\<open>value = (value << CHAR_WIDTH) | alpha.char2comp[kmer[i]]\<close>.\<close>

definition encode_step :: "bool \<Rightarrow> Alphabet \<Rightarrow> key_type \<Rightarrow> char \<Rightarrow> key_type option" where
  "encode_step char_signed alpha v c =
     (let i = unat (char_index char_signed c)
      in if length (char2comp alpha) \<le> i then None
         else Some (push_bit CHAR_WIDTH v OR ucast (char2comp alpha ! i)))"

text \<open>The loop of \<^verbatim>\<open>Key::encode\<close> over the k-mer, left to right, from the value
  \<open>v\<close>; the predecessor and successor bytes are shifted in after it.\<close>

fun encode_loop :: "bool \<Rightarrow> Alphabet \<Rightarrow> key_type \<Rightarrow> string \<Rightarrow> key_type option" where
  "encode_loop char_signed alpha v [] = Some v"
| "encode_loop char_signed alpha v (c # kmer) =
     (case encode_step char_signed alpha v c of
        None \<Rightarrow> None
      | Some v' \<Rightarrow> encode_loop char_signed alpha v' kmer)"

definition Key_encode ::
  "bool \<Rightarrow> Alphabet \<Rightarrow> string \<Rightarrow> byte_type \<Rightarrow> byte_type \<Rightarrow> key_type option" where
  "Key_encode char_signed alpha kmer pred succ =
     (case encode_loop char_signed alpha 0 kmer of
        None \<Rightarrow> None
      | Some v0 \<Rightarrow>
          (let v1 = push_bit 8 v0 OR ucast pred;
               v2 = push_bit 8 v1 OR ucast succ
           in Some v2))"

definition Key_label :: "key_type \<Rightarrow> size_type" where
  "Key_label key = drop_bit 16 key"

definition Key_predecessors :: "key_type \<Rightarrow> byte_type" where
  "Key_predecessors key = ucast (drop_bit 8 key AND 0xFF)"

definition Key_successors :: "key_type \<Rightarrow> byte_type" where
  "Key_successors key = ucast (key AND 0xFF)"

definition Key_last :: "key_type \<Rightarrow> comp_type" where
  "Key_last key = ucast (drop_bit 16 key AND CHAR_MASK)"

definition Key_merge :: "key_type \<Rightarrow> key_type \<Rightarrow> key_type" where
  "Key_merge key1 key2 = key1 OR (key2 AND PRED_SUCC_MASK)"

definition Key_replace :: "key_type \<Rightarrow> size_type \<Rightarrow> key_type" where
  "Key_replace key kmer_val = push_bit 16 kmer_val OR (key AND PRED_SUCC_MASK)"

text \<open>
  Modelled from the spec: \<^verbatim>\<open>Key::decode\<close> is declared in \<^verbatim>\<open>support.h\<close> and
  defined outside the sources at hand. The specification says that it reverses
  \<^verbatim>\<open>encode\<close> given a known length: character \<open>i\<close> of the result is the
  \<^verbatim>\<open>comp2char\<close> image of the 3-bit digit of the label that \<^verbatim>\<open>encode\<close> wrote
  for position \<open>i\<close>, the left-most character in the most significant of the
  \<open>kmer_length\<close> digits.
\<close>

definition label_digit :: "size_type \<Rightarrow> nat \<Rightarrow> nat \<Rightarrow> nat" where
  "label_digit lbl kmer_length i =
     unat (drop_bit (CHAR_WIDTH * (kmer_length - 1 - i)) lbl AND CHAR_MASK)"

definition Key_decode :: "key_type \<Rightarrow> nat \<Rightarrow> Alphabet \<Rightarrow> string" where
  "Key_decode key kmer_length alpha =
     map (\<lambda>i. comp2char alpha ! label_digit (Key_label key) kmer_length i) [0..<kmer_length]"

text \<open>
  The alphabet of the worked example: \<^verbatim>\<open>$\<close> is comp value 0, \<^verbatim>\<open>A\<close> 1,
  \<^verbatim>\<open>C\<close> 2, \<^verbatim>\<open>G\<close> 3 and \<^verbatim>\<open>T\<close> 4; every other byte is sent to 0. The table
  has the 256 entries of \<^verbatim>\<open>MAX_SIGMA\<close>.
\<close>

definition dna_char2comp :: "byte_type list" where
  "dna_char2comp =
     map (\<lambda>i. if i = 65 then 1 else if i = 67 then 2 else if i = 71 then 3
               else if i = 84 then 4 else 0) [0..<256]"

definition dna_alphabet :: Alphabet where
  "dna_alphabet =
     \<lparr> char2comp = dna_char2comp, comp2char = ''$ACGT'', C = replicate 6 0, sigma = 5 \<rparr>"

subsection \<open>Node codec\<close>

definition OFFSET_BITS :: nat where
  "OFFSET_BITS = 10"

definition OFFSET_MASK :: size_type where
  "OFFSET_MASK = 0x3FF"

definition Node_encode :: "size_type \<Rightarrow> size_type \<Rightarrow> node_type" where
  "Node_encode node_id node_offset = push_bit OFFSET_BITS node_id OR node_offset"

definition Node_id :: "node_type \<Rightarrow> size_type" where
  "Node_id node = drop_bit OFFSET_BITS node"

definition Node_offset :: "node_type \<Rightarrow> size_type" where
  "Node_offset node = node AND OFFSET_MASK"

subsection \<open>SLArray\<close>

text \<open>
  A byte per slot, and a \<^verbatim>\<open>std::map\<close> from slot index to the full count for the slots
  whose byte holds the sentinel 255. Reading \<^verbatim>\<open>data[i]\<close> at an index outside the
  vector is undefined in the source, and \<^verbatim>\<open>std::map::at\<close> throws
  \<^verbatim>\<open>std::out_of_range\<close> on a missing key: both are error values here. (The third
  error value is raised by the sparse bit vector of \<^verbatim>\<open>ValueIndex\<close>.)
\<close>

datatype error = Undefined_read | Out_of_range | Unsorted_source

record SLArray =
  data :: "byte_type list"
  large_values :: "nat \<rightharpoonup> size_type"

definition LARGE_VALUE :: byte_type where
  "LARGE_VALUE = 255"

text \<open>
  Modelled from the spec: the constructor \<^verbatim>\<open>SLArray(size_type n)\<close> is declared in
  \<^verbatim>\<open>internal.h\<close> and defined outside the sources at hand. The specification calls the
  structure a counter array of length \<open>n\<close>, and the header says that values start as 0s.
\<close>

definition SLArray_init :: "nat \<Rightarrow> SLArray" where
  "SLArray_init n = \<lparr> data = replicate n 0, large_values = Map.empty \<rparr>"

text \<open>\<^verbatim>\<open>inline bool size() const { return data.size(); }\<close>: the return type is
  \<^verbatim>\<open>bool\<close>, so the length is converted to a truth value.\<close>

definition SLArray_size :: "SLArray \<Rightarrow> bool" where
  "SLArray_size a = (length (data a) \<noteq> 0)"

definition SLArray_get :: "SLArray \<Rightarrow> nat \<Rightarrow> error + size_type" where
  "SLArray_get a i =
     (if length (data a) \<le> i then Inl Undefined_read
      else if data a ! i = LARGE_VALUE
        then (case large_values a i of None \<Rightarrow> Inl Out_of_range | Some v \<Rightarrow> Inr v)
      else Inr (ucast (data a ! i)))"

text \<open>\<^verbatim>\<open>large_values[i]\<close> on a \<^verbatim>\<open>std::map\<close> inserts a zero for a missing key.\<close>

definition map_entry :: "(nat \<rightharpoonup> size_type) \<Rightarrow> nat \<Rightarrow> size_type" where
  "map_entry m i = (case m i of None \<Rightarrow> 0 | Some v \<Rightarrow> v)"

definition SLArray_increment :: "SLArray \<Rightarrow> nat \<Rightarrow> error + SLArray" where
  "SLArray_increment a i =
     (if length (data a) \<le> i then Inl Undefined_read
      else if data a ! i = LARGE_VALUE
        then Inr (a\<lparr>large_values := (large_values a)(i \<mapsto> map_entry (large_values a) i + 1)\<rparr>)
      else
        (let a' = a\<lparr>data := (data a)[i := data a ! i + 1]\<rparr>
         in if data a' ! i = LARGE_VALUE
            then Inr (a'\<lparr>large_values := (large_values a')(i \<mapsto> ucast LARGE_VALUE)\<rparr>)
            else Inr a'))"

text \<open>A sequence of \<^verbatim>\<open>increment\<close> calls, one per index of the list, in order.\<close>

fun SLArray_increments :: "SLArray \<Rightarrow> nat list \<Rightarrow> error + SLArray" where
  "SLArray_increments a [] = Inr a"
| "SLArray_increments a (i # is) =
     (case SLArray_increment a i of Inl e \<Rightarrow> Inl e | Inr a' \<Rightarrow> SLArray_increments a' is)"

text \<open>The representation invariant: slot \<open>i\<close> holds the count \<open>cnt i\<close>, in the byte
  while it is below 255 and in the map from 255 on.\<close>

definition counts_inv :: "nat \<Rightarrow> (nat \<Rightarrow> nat) \<Rightarrow> SLArray \<Rightarrow> bool" where
  "counts_inv n cnt a =
     (length (data a) = n \<and>
      (\<forall>i<n. if data a ! i = LARGE_VALUE
             then 255 \<le> cnt i \<and> large_values a i = Some (of_nat (cnt i))
             else cnt i < 255 \<and> data a ! i = of_nat (cnt i)))"

subsection \<open>PathNode\<close>

text \<open>
  The fields of \<^verbatim>\<open>struct PathNode\<close>; \<^verbatim>\<open>from\<close>, \<^verbatim>\<open>to\<close> and
  \<^verbatim>\<open>fields\<close> are named \<open>from_node\<close>, \<open>to_node\<close> and \<open>packed_fields\<close>
  here. The two label arrays have \<^verbatim>\<open>LABEL_LENGTH\<close> entries in the source; a read at an
  index outside an array is undefined there and is the result \<open>None\<close> here.
\<close>

definition LABEL_LENGTH :: nat where
  "LABEL_LENGTH = 8"

record PathNode =
  from_node :: node_type
  to_node :: node_type
  first_label :: "rank_type list"
  last_label :: "rank_type list"
  packed_fields :: size_type

definition PathNode_order :: "PathNode \<Rightarrow> size_type" where
  "PathNode_order p = drop_bit 8 (packed_fields p) AND 0xF"

text \<open>
  The loop shared by \<^verbatim>\<open>operator<\<close> and \<^verbatim>\<open>compareLast\<close>: scan the two arrays from
  index \<open>i\<close> up to \<open>ord\<close>, return the comparison of the first pair of entries that
  differ, and the tie-break \<open>tie\<close> when there is none.
\<close>

function label_compare ::
  "rank_type list \<Rightarrow> rank_type list \<Rightarrow> nat \<Rightarrow> nat \<Rightarrow> bool \<Rightarrow> bool option" where
  "label_compare xs ys ord i tie =
     (if i < ord then
        (if length xs \<le> i \<or> length ys \<le> i then None
         else if xs ! i \<noteq> ys ! i then Some (xs ! i < ys ! i)
         else label_compare xs ys ord (Suc i) tie)
      else Some tie)"
  by pat_completeness auto
termination
  by (relation "measure (\<lambda>(xs, ys, ord, i, tie). ord - i)") auto

declare label_compare.simps [simp del]

definition PathNode_less :: "PathNode \<Rightarrow> PathNode \<Rightarrow> bool option" where
  "PathNode_less this another =
     (let ord = min (PathNode_order this) (PathNode_order another)
      in label_compare (first_label this) (first_label another) (unat ord) 0
           (PathNode_order this < PathNode_order another))"

definition PathNode_compareLast :: "PathNode \<Rightarrow> PathNode \<Rightarrow> bool option" where
  "PathNode_compareLast this another =
     (let ord = min (PathNode_order this) (PathNode_order another)
      in label_compare (last_label this) (last_label another) (unat ord) 0
           (PathNode_order another < PathNode_order this))"

text \<open>The arrays have their declared length and the order lies in \<open>[1, 8]\<close>.\<close>

definition valid_PathNode :: "PathNode \<Rightarrow> bool" where
  "valid_PathNode p =
     (length (first_label p) = LABEL_LENGTH \<and> length (last_label p) = LABEL_LENGTH
      \<and> 1 \<le> PathNode_order p \<and> PathNode_order p \<le> 8)"

text \<open>The rank sequences of a path node: the first \<^verbatim>\<open>order()\<close> entries of each array.\<close>

definition first_seq :: "PathNode \<Rightarrow> rank_type list" where
  "first_seq p = take (unat (PathNode_order p)) (first_label p)"

definition last_seq :: "PathNode \<Rightarrow> rank_type list" where
  "last_seq p = take (unat (PathNode_order p)) (last_label p)"

definition rank_less :: "(rank_type \<times> rank_type) set" where
  "rank_less = {(x, y). x < y}"


text \<open>Path nodes for the examples: the given ranks padded with zeros to
  \<^verbatim>\<open>LABEL_LENGTH\<close> entries, and the given order in bits 8 to 11 of the packed word.\<close>

definition path_node :: "rank_type list \<Rightarrow> rank_type list \<Rightarrow> size_type \<Rightarrow> PathNode" where
  "path_node f l ord =
     \<lparr> from_node = 0, to_node = 0,
       first_label = f @ replicate (LABEL_LENGTH - length f) 0,
       last_label = l @ replicate (LABEL_LENGTH - length l) 0,
       packed_fields = push_bit 8 ord \<rparr>"

subsection \<open>Key::lcp\<close>

text \<open>
  The loop of \<^verbatim>\<open>Key::lcp\<close>: while the mask is positive, shift it right by one
  digit, stop at the first digit where the two labels differ, and count the round
  otherwise. The test of the mask precedes the shift.
\<close>

function lcp_loop :: "key_type \<Rightarrow> key_type \<Rightarrow> key_type \<Rightarrow> size_type \<Rightarrow> size_type" where
  "lcp_loop a b msk res =
     (if 0 < msk then
        (if a AND drop_bit CHAR_WIDTH msk \<noteq> b AND drop_bit CHAR_WIDTH msk then res
         else lcp_loop a b (drop_bit CHAR_WIDTH msk) (res + 1))
      else res)"
  by pat_completeness auto
termination
proof (relation "measure (\<lambda>(a, b, msk, res). unat msk)")
  show "wf (measure (\<lambda>(a, b, msk, res). unat msk))"
    by simp
next
  fix a b msk :: key_type and res :: size_type
  assume "0 < msk"
  then have "0 < unat msk"
    by (simp add: word_less_nat_alt)
  then have "unat msk div 8 < unat msk"
    by simp
  then have "unat (drop_bit CHAR_WIDTH msk) < unat msk"
    by (simp add: unat_drop_bit_eq drop_bit_eq_div CHAR_WIDTH_def unat_div)
  then show "((a, b, drop_bit CHAR_WIDTH msk, res + 1), (a, b, msk, res))
      \<in> measure (\<lambda>(a, b, msk, res). unat msk)"
    by simp
qed

declare lcp_loop.simps [simp del]

text \<open>
  \<^verbatim>\<open>Key::lcp\<close>. The mask starts one digit above the \<open>kmer_length\<close> digits of the
  label. A shift count of 64 or more is undefined in the source and gives \<open>None\<close>.
\<close>

definition Key_lcp :: "key_type \<Rightarrow> key_type \<Rightarrow> size_type \<Rightarrow> size_type option" where
  "Key_lcp a b kmer_length =
     (let shift = unat (of_nat CHAR_WIDTH * kmer_length)
      in if 64 \<le> shift then None
         else Some (lcp_loop (Key_label a) (Key_label b) (push_bit shift CHAR_MASK) 0))"

text \<open>The comp sequence that a label holds for a k-mer of length \<open>k\<close>, left-most
  character first, and the digit at position \<open>j\<close> counted from the least significant.\<close>

definition kmer_digits :: "size_type \<Rightarrow> nat \<Rightarrow> nat list" where
  "kmer_digits lbl k = map (label_digit lbl k) [0..<k]"

definition digit_at :: "size_type \<Rightarrow> nat \<Rightarrow> size_type" where
  "digit_at x j = drop_bit (CHAR_WIDTH * j) x AND CHAR_MASK"

text \<open>The number of rounds the loop counts when it starts above digit \<open>j - 1\<close>.\<close>

fun equal_digits :: "size_type \<Rightarrow> size_type \<Rightarrow> nat \<Rightarrow> nat" where
  "equal_digits a b 0 = 1"
| "equal_digits a b (Suc j) =
     (if digit_at a j = digit_at b j then Suc (equal_digits a b j) else 0)"

subsection \<open>Alphabets and k-mers of the round trip\<close>

text \<open>The value that the loop of \<^verbatim>\<open>Key::encode\<close> builds from the comp values it
  reads, in reading order: each round shifts by one digit and writes the comp value into
  the lowest digit.\<close>

definition pack_comps :: "key_type \<Rightarrow> comp_type list \<Rightarrow> key_type" where
  "pack_comps v xs = foldl (\<lambda>v x. push_bit CHAR_WIDTH v OR ucast x) v xs"

text \<open>Every character of the k-mer indexes inside the \<^verbatim>\<open>char2comp\<close> table, as
  the build converts it, and maps to a comp value below 8.\<close>

definition comp_below_8 :: "bool \<Rightarrow> Alphabet \<Rightarrow> string \<Rightarrow> bool" where
  "comp_below_8 char_signed alpha kmer =
     list_all (\<lambda>c. unat (char_index char_signed c) < length (char2comp alpha)
                  \<and> char2comp alpha ! unat (char_index char_signed c) < 8) kmer"

text \<open>\<^verbatim>\<open>comp2char\<close> leads every character of the k-mer back from its comp value.\<close>

definition comp_invertible :: "bool \<Rightarrow> Alphabet \<Rightarrow> string \<Rightarrow> bool" where
  "comp_invertible char_signed alpha kmer =
     list_all (\<lambda>c. unat (char2comp alpha ! unat (char_index char_signed c))
                    < length (comp2char alpha)
                  \<and> comp2char alpha ! unat (char2comp alpha ! unat (char_index char_signed c)) = c)
       kmer"

text \<open>An alphabet that sends the lower-case letters to the comp values of the upper-case
  ones.\<close>

definition folding_char2comp :: "byte_type list" where
  "folding_char2comp =
     map (\<lambda>i. if i = 65 \<or> i = 97 then 1 else if i = 67 \<or> i = 99 then 2
               else if i = 71 \<or> i = 103 then 3 else if i = 84 \<or> i = 116 then 4 else 0)
       [0..<256]"

definition folding_alphabet :: Alphabet where
  "folding_alphabet =
     \<lparr> char2comp = folding_char2comp, comp2char = ''$ACGT'', C = replicate 6 0, sigma = 5 \<rparr>"

subsection \<open>LCP support\<close>

text \<open>
  The fields of \<^verbatim>\<open>struct LCP\<close> that \<^verbatim>\<open>extendRange\<close> reads. The range-minimum
  structure \<^verbatim>\<open>lcp_rmq\<close> belongs to the succinct-structure library and is read by no
  operation modelled here; it is left out.
\<close>

record LCP =
  kmer_length :: size_type
  total_keys :: size_type
  kmer_lcp :: "size_type list"

text \<open>
  The first loop of \<^verbatim>\<open>extendRange\<close>:
  \<^verbatim>\<open>while(range.first > 0 && kmer_lcp[range.first] >= lcp) { range.first--; }\<close>.
  A read outside \<^verbatim>\<open>kmer_lcp\<close> is undefined in the source and is \<open>None\<close> here.
\<close>

function extend_left :: "LCP \<Rightarrow> size_type \<Rightarrow> rank_type \<Rightarrow> rank_type option" where
  "extend_left L lcp first =
     (if 0 < first then
        (if length (kmer_lcp L) \<le> unat first then None
         else if lcp \<le> kmer_lcp L ! unat first then extend_left L lcp (first - 1)
         else Some first)
      else Some first)"
  by pat_completeness auto
termination
proof (relation "measure (\<lambda>(L, lcp, first). unat first)")
  show "wf (measure (\<lambda>(L, lcp, first). unat first))"
    by simp
next
  fix L :: LCP and lcp :: size_type and first :: rank_type
  assume "0 < first"
  then have "first \<noteq> 0" and "0 < unat first"
    by (simp_all add: word_greater_zero_iff unat_gt_0)
  then have "unat (first - 1) < unat first"
    by (simp add: unat_minus_one)
  then show "((L, lcp, first - 1), (L, lcp, first)) \<in> measure (\<lambda>(L, lcp, first). unat first)"
    by simp
qed

declare extend_left.simps [simp del]

text \<open>
  The second loop:
  \<^verbatim>\<open>while(range.second + 1 < total_keys && kmer_lcp[range.second + 1] >= lcp) { range.second++; }\<close>.
  \<^verbatim>\<open>range.second\<close> is a 32-bit rank, so \<^verbatim>\<open>range.second + 1\<close> is computed in 32 bits
  and wraps to 0 after \<open>2^32 - 1\<close>; it is widened to 64 bits for the comparison with
  \<^verbatim>\<open>total_keys\<close>. Nothing bounds the number of rounds, so the loop is a partial function:
  \<open>None\<close> is a run that does not return (or a read outside \<^verbatim>\<open>kmer_lcp\<close>).
\<close>

partial_function (option) extend_right :: "LCP \<Rightarrow> size_type \<Rightarrow> rank_type \<Rightarrow> rank_type option" where
  "extend_right L lcp second =
     (if ucast (second + 1) < total_keys L then
        (if length (kmer_lcp L) \<le> unat (second + 1) then None
         else if lcp \<le> kmer_lcp L ! unat (second + 1) then extend_right L lcp (second + 1)
         else Some second)
      else Some second)"

declare extend_right.simps [code]

definition extendRange :: "LCP \<Rightarrow> rank_type \<times> rank_type \<Rightarrow> size_type \<Rightarrow> (rank_type \<times> rank_type) option" where
  "extendRange L rng lcp =
     (case extend_left L lcp (fst rng) of
        None \<Rightarrow> None
      | Some first \<Rightarrow>
          (case extend_right L lcp (snd rng) of
             None \<Rightarrow> None
           | Some second \<Rightarrow> Some (first, second)))"

text \<open>An LCP structure over six keys, and one over \<open>2^32\<close> keys whose entries are all 0.\<close>

definition ex_lcp :: LCP where
  "ex_lcp = \<lparr> kmer_length = 3, total_keys = 6, kmer_lcp = [0, 2, 1, 2, 2, 0] \<rparr>"

definition wide_lcp :: LCP where
  "wide_lcp = \<lparr> kmer_length = 16, total_keys = 2 ^ 32, kmer_lcp = replicate (2 ^ 32) 0 \<rparr>"

subsection \<open>ValueIndex\<close>

text \<open>
  \<^verbatim>\<open>ValueIndex\<close> rests on three structures of the succinct-structure library, which
  are modelled by what they compute:
  \<^item> \<^verbatim>\<open>sd_vector\<close>, a sparse bit vector: its size and the increasing list of the
    positions of its ones. Built from a non-empty sorted sequence it has a one at every
    position of the sequence and the size \<open>last + 1\<close>, computed in \<^verbatim>\<open>size_type\<close>;
    an unsorted sequence is rejected with an exception. The default vector is empty.
  \<^item> \<^verbatim>\<open>rank_1(v)\<close>: the number of ones at positions below \<open>v\<close>.
  \<^item> \<^verbatim>\<open>select_1(j)\<close> on a plain bit vector: the position of the \<open>j\<close>-th one, counted
    from 1; it is undefined when there is no such one, which is \<open>None\<close> here.
\<close>

record sd_vector =
  sd_size :: size_type
  sd_ones :: "size_type list"

record ValueIndex =
  values_vec :: sd_vector
  first_occ :: "bool list"

text \<open>The default-constructed vector, and the constructor from a sequence of positions.\<close>

definition sd_empty :: sd_vector where
  "sd_empty = \<lparr> sd_size = 0, sd_ones = [] \<rparr>"

definition sd_build :: "size_type list \<Rightarrow> error + sd_vector" where
  "sd_build buffer =
     (if sorted buffer then Inr \<lparr> sd_size = last buffer + 1, sd_ones = buffer \<rparr>
      else Inl Unsorted_source)"

definition sd_access :: "sd_vector \<Rightarrow> size_type \<Rightarrow> bool" where
  "sd_access sd v = (v \<in> set (sd_ones sd))"

definition rank_1 :: "sd_vector \<Rightarrow> size_type \<Rightarrow> nat" where
  "rank_1 sd v = length (filter (\<lambda>x. x < v) (sd_ones sd))"

fun select_1 :: "bool list \<Rightarrow> nat \<Rightarrow> nat option" where
  "select_1 [] j = None"
| "select_1 (b # bs) j =
     (if j = 0 then None
      else if b then (if j = 1 then Some 0 else map_option Suc (select_1 bs (j - 1)))
      else map_option Suc (select_1 bs j))"

text \<open>
  The loop of the constructor: \<open>prev\<close> starts as \<^verbatim>\<open>~(size_type)0\<close>; an element whose
  value differs from \<open>prev\<close> appends the value to \<^verbatim>\<open>buffer\<close> and sets its bit in
  \<^verbatim>\<open>first_occ\<close>.
\<close>

fun scan_input :: "('a \<Rightarrow> size_type) \<Rightarrow> size_type \<Rightarrow> 'a list \<Rightarrow> size_type list \<times> bool list" where
  "scan_input get prev [] = ([], [])"
| "scan_input get prev (x # xs) =
     (let curr = get x
      in if curr \<noteq> prev
         then (case scan_input get curr xs of (buffer, occ) \<Rightarrow> (curr # buffer, True # occ))
         else (case scan_input get prev xs of (buffer, occ) \<Rightarrow> (buffer, False # occ)))"

definition ValueIndex_init :: "('a \<Rightarrow> size_type) \<Rightarrow> 'a list \<Rightarrow> error + ValueIndex" where
  "ValueIndex_init get input =
     (case scan_input get (- 1) input of
        (buffer, occ) \<Rightarrow>
          if 0 < length buffer
          then (case sd_build buffer of
                  Inl e \<Rightarrow> Inl e
                | Inr sd \<Rightarrow> Inr \<lparr> values_vec = sd, first_occ = occ \<rparr>)
          else Inr \<lparr> values_vec = sd_empty, first_occ = occ \<rparr>)"

text \<open>\<^verbatim>\<open>find\<close>. The result is an index into the input, or the length of the input.\<close>

definition ValueIndex_find :: "ValueIndex \<Rightarrow> size_type \<Rightarrow> nat option" where
  "ValueIndex_find vi v =
     (if sd_size (values_vec vi) \<le> v \<or> \<not> sd_access (values_vec vi) v
      then Some (length (first_occ vi))
      else select_1 (first_occ vi) (rank_1 (values_vec vi) v + 1))"

text \<open>The first position of a list at which a predicate holds; the length of the list when
  there is none.\<close>

fun first_pos :: "('a \<Rightarrow> bool) \<Rightarrow> 'a list \<Rightarrow> nat" where
  "first_pos P [] = 0"
| "first_pos P (x # xs) = (if P x then 0 else Suc (first_pos P xs))"

subsection \<open>PriorityQueue\<close>

text \<open>
  \<^verbatim>\<open>PriorityQueue<Element>\<close> has the single field \<^verbatim>\<open>data\<close>; a queue is modelled by
  that vector. The element type's \<^verbatim>\<open>operator<\<close> is the parameter \<open>lt\<close>. Indices are
  natural numbers: \<^verbatim>\<open>parent(0)\<close> wraps around in the source, which is written out;
  \<^verbatim>\<open>left\<close> and \<^verbatim>\<open>right\<close> cannot overflow for an index into a vector in memory.
\<close>

definition parent :: "nat \<Rightarrow> nat" where
  "parent i = (if i = 0 then (2 ^ 64 - 1) div 2 else (i - 1) div 2)"

definition left :: "nat \<Rightarrow> nat" where
  "left i = 2 * i + 1"

definition right :: "nat \<Rightarrow> nat" where
  "right i = 2 * i + 2"

definition smaller :: "('a \<Rightarrow> 'a \<Rightarrow> bool) \<Rightarrow> 'a list \<Rightarrow> nat \<Rightarrow> nat \<Rightarrow> nat" where
  "smaller lt d i j = (if lt (d ! j) (d ! i) then j else i)"

text \<open>The index chosen by one round of \<^verbatim>\<open>down\<close>:
  \<^verbatim>\<open>next = smaller(i, left(i)); if(right(i) < size()) { next = smaller(next, right(i)); }\<close>.\<close>

definition next_index :: "('a \<Rightarrow> 'a \<Rightarrow> bool) \<Rightarrow> 'a list \<Rightarrow> nat \<Rightarrow> nat" where
  "next_index lt d i =
     (let next = smaller lt d i (left i)
      in if right i < length d then smaller lt d next (right i) else next)"

text \<open>\<^verbatim>\<open>std::swap(data[i], data[j])\<close>.\<close>

definition swap_data :: "'a list \<Rightarrow> nat \<Rightarrow> nat \<Rightarrow> 'a list" where
  "swap_data d i j = d[i := d ! j, j := d ! i]"

function down :: "('a \<Rightarrow> 'a \<Rightarrow> bool) \<Rightarrow> 'a list \<Rightarrow> nat \<Rightarrow> 'a list" where
  "down lt d i =
     (if left i < length d then
        (if next_index lt d i = i then d
         else down lt (swap_data d i (next_index lt d i)) (next_index lt d i))
      else d)"
  by pat_completeness auto
termination
proof (relation "measure (\<lambda>(lt, d, i). length d - i)")
  show "wf (measure (\<lambda>(lt, d, i). length d - i))"
    by simp
next
  fix lt :: "'a \<Rightarrow> 'a \<Rightarrow> bool" and d :: "'a list" and i :: nat
  assume l: "left i < length d" and n: "next_index lt d i \<noteq> i"
  have "next_index lt d i = left i \<or> (next_index lt d i = right i \<and> right i < length d)"
    using n by (auto simp: next_index_def smaller_def Let_def split: if_splits)
  then have "i < next_index lt d i \<and> next_index lt d i < length d"
    using l by (auto simp: left_def right_def)
  then show "((lt, swap_data d i (next_index lt d i), next_index lt d i), (lt, d, i))
      \<in> measure (\<lambda>(lt, d, i). length d - i)"
    by (simp add: swap_data_def) arith
qed

declare down.simps [simp del]

primrec heapify_loop :: "('a \<Rightarrow> 'a \<Rightarrow> bool) \<Rightarrow> 'a list \<Rightarrow> nat \<Rightarrow> 'a list" where
  "heapify_loop lt d 0 = down lt d 0"
| "heapify_loop lt d (Suc i) = heapify_loop lt (down lt d (Suc i)) i"

definition heapify :: "('a \<Rightarrow> 'a \<Rightarrow> bool) \<Rightarrow> 'a list \<Rightarrow> 'a list" where
  "heapify lt d = (if length d \<le> 1 then d else heapify_loop lt d (parent (length d - 1)))"

text \<open>A strict less-than: irreflexive, transitive, and with a transitive "not less than"
  (a strict weak ordering, as the standard library demands of a comparison).\<close>

definition strict_weak_order :: "('a \<Rightarrow> 'a \<Rightarrow> bool) \<Rightarrow> bool" where
  "strict_weak_order lt =
     ((\<forall>x. \<not> lt x x) \<and> (\<forall>x y z. lt x y \<and> lt y z \<longrightarrow> lt x z)
      \<and> (\<forall>x y z. \<not> lt x y \<and> \<not> lt y z \<longrightarrow> \<not> lt x z))"

text \<open>
  The min-heap property, no element is strictly less than its parent: on the whole
  vector (\<open>is_heap\<close>), on the elements whose parent has index \<open>lo\<close> or more
  (\<open>heap_from\<close>), and on those with the place \<open>k\<close> that is being sifted left out,
  where the children of \<open>k\<close> are not less than its parent (\<open>heap_except\<close>).
\<close>

definition heap_from :: "('a \<Rightarrow> 'a \<Rightarrow> bool) \<Rightarrow> 'a list \<Rightarrow> nat \<Rightarrow> bool" where
  "heap_from lt d lo =
     (\<forall>j. 0 < j \<and> j < length d \<and> lo \<le> parent j \<longrightarrow> \<not> lt (d ! j) (d ! parent j))"

definition is_heap :: "('a \<Rightarrow> 'a \<Rightarrow> bool) \<Rightarrow> 'a list \<Rightarrow> bool" where
  "is_heap lt d = (\<forall>j. 0 < j \<and> j < length d \<longrightarrow> \<not> lt (d ! j) (d ! parent j))"

definition heap_except :: "('a \<Rightarrow> 'a \<Rightarrow> bool) \<Rightarrow> 'a list \<Rightarrow> nat \<Rightarrow> nat \<Rightarrow> bool" where
  "heap_except lt d lo k =
     ((\<forall>j. 0 < j \<and> j < length d \<and> lo \<le> parent j \<and> parent j \<noteq> k
           \<longrightarrow> \<not> lt (d ! j) (d ! parent j))
      \<and> (0 < k \<and> lo \<le> parent k
           \<longrightarrow> (\<forall>c. 0 < c \<and> c < length d \<and> parent c = k \<longrightarrow> \<not> lt (d ! c) (d ! parent k))))"

text \<open>
  Modelled from the spec: \<^verbatim>\<open>PriorityQueue\<close> has no operation that removes the root; the
  specification speaks of iteratively extracting the root. One extraction takes
  \<^verbatim>\<open>data[0]\<close>, moves the last element to the root, shortens the vector by one and
  restores the heap with the queue's own \<^verbatim>\<open>down(0)\<close>; \<open>drain\<close> extracts until the
  queue is empty and lists the extracted elements in order.
\<close>

primrec drain_steps :: "('a \<Rightarrow> 'a \<Rightarrow> bool) \<Rightarrow> 'a list \<Rightarrow> nat \<Rightarrow> 'a list" where
  "drain_steps lt d 0 = []"
| "drain_steps lt d (Suc n) =
     (if d = [] then []
      else d ! 0 # drain_steps lt (down lt ((butlast d)[0 := last d]) 0) n)"

definition drain :: "('a \<Rightarrow> 'a \<Rightarrow> bool) \<Rightarrow> 'a list \<Rightarrow> 'a list" where
  "drain lt d = drain_steps lt d (length d)"

section \<open>Properties\<close>

subsection \<open>The worked key example\<close>

lemma dna_comp_A: "dna_char2comp ! 65 = 1"
  by (simp add: dna_char2comp_def)

lemma dna_comp_C: "dna_char2comp ! 67 = 2"
  by (simp add: dna_char2comp_def)

lemma dna_comp_G: "dna_char2comp ! 71 = 3"
  by (simp add: dna_char2comp_def)

lemma dna_length: "length dna_char2comp = 256"
  by (simp add: dna_char2comp_def)

lemma dna_encode_ACG: "Key_encode char_signed dna_alphabet ''ACG'' 0x10 0x02 = Some 0x531002"
  by (simp add: Key_encode_def encode_step_def char_index_def dna_alphabet_def CHAR_WIDTH_def
      dna_comp_A dna_comp_C dna_comp_G dna_length Let_def)

text \<open>
  C1, as stated. The label of the key of \<^verbatim>\<open>"ACG"\<close> is claimed to be
  \<open>(1<<9)|(2<<6)|(3<<3) = 664\<close>. The loop of \<^verbatim>\<open>Key::encode\<close> leaves the last
  character in the lowest digit: the key is \<open>0x531002\<close>, whether plain
  \<^verbatim>\<open>char\<close> is signed or not, and its label is not 664.
\<close>

theorem C1_label_counterexample:
  "Key_encode True dna_alphabet ''ACG'' 0x10 0x02 = Some 0x531002
   \<and> Key_encode False dna_alphabet ''ACG'' 0x10 0x02 = Some 0x531002
   \<and> Key_label 0x531002 \<noteq> 664"
  by (simp add: dna_encode_ACG Key_label_def)

text \<open>
  C1, amended. With the alphabet \<^verbatim>\<open>$\<close>=0, \<^verbatim>\<open>A\<close>=1, \<^verbatim>\<open>C\<close>=2, \<^verbatim>\<open>G\<close>=3,
  \<^verbatim>\<open>T\<close>=4, the key of \<^verbatim>\<open>"ACG"\<close> with predecessor mask \<open>0x10\<close> and successor
  mask \<open>0x02\<close> is \<open>0x531002\<close>, with plain \<^verbatim>\<open>char\<close> signed or not. It has label
  \<open>(1<<6)|(2<<3)|3 = 83\<close>, its lower 16 bits are \<open>0x1002\<close>, and decoding it with
  length 3 gives \<^verbatim>\<open>"ACG"\<close> back.
\<close>

theorem C1_key_example:
  "Key_encode char_signed dna_alphabet ''ACG'' 0x10 0x02 = Some 0x531002
   \<and> Key_label 0x531002 = (push_bit 6 1 OR push_bit 3 2 OR 3)
   \<and> Key_label 0x531002 = 83
   \<and> (0x531002 :: key_type) AND 0xFFFF = 0x1002
   \<and> Key_decode 0x531002 3 dna_alphabet = ''ACG''"
proof -
  have c: "comp2char dna_alphabet = ''$ACGT''"
    by (simp add: dna_alphabet_def)
  have u: "[0..<3] = [0, 1, 2]"
    by (simp add: numeral_3_eq_3)
  show ?thesis
    by (simp add: dna_encode_ACG Key_label_def Key_decode_def label_digit_def
        CHAR_WIDTH_def CHAR_MASK_def c u)
qed

subsection \<open>Node tokens\<close>

lemma OFFSET_MASK_mask: "OFFSET_MASK = mask 10"
  by (simp add: OFFSET_MASK_def mask_eq_exp_minus_1)

lemma small_offset_bits:
  fixes x :: size_type
  assumes "x < 1024" and "bit x n"
  shows "n < 10"
proof -
  have "x AND mask 10 = x"
    using assms(1) by (simp add: less_mask_eq)
  then have "bit (x AND mask 10) n"
    using assms(2) by simp
  then show ?thesis
    by (simp add: bit_simps)
qed

lemma small_id_bits:
  fixes x :: size_type
  assumes "x < 2 ^ 54" and "bit x n"
  shows "n < 54"
proof -
  have "x AND mask 54 = x"
    using assms(1) by (simp add: less_mask_eq)
  then have "bit (x AND mask 54) n"
    using assms(2) by simp
  then show ?thesis
    by (simp add: bit_simps)
qed

lemma small_offset_masked:
  fixes x :: size_type
  shows "x < 1024 \<Longrightarrow> x AND OFFSET_MASK = x"
  unfolding OFFSET_MASK_mask by (simp add: less_mask_eq)

lemma Node_id_encode:
  assumes "node_id < 2 ^ 54" and "node_offset < 1024"
  shows "Node_id (Node_encode node_id node_offset) = node_id"
  unfolding Node_id_def Node_encode_def OFFSET_BITS_def
  by (rule bit_word_eqI)
    (auto simp: bit_simps dest: small_offset_bits [OF assms(2)] small_id_bits [OF assms(1)])

lemma Node_offset_encode:
  assumes "node_offset < 1024"
  shows "Node_offset (Node_encode node_id node_offset) = node_offset"
  unfolding Node_offset_def Node_encode_def OFFSET_BITS_def OFFSET_MASK_mask
  by (rule bit_word_eqI) (auto simp: bit_simps dest: small_offset_bits [OF assms])

text \<open>
  C2, as stated. \<^verbatim>\<open>Node::encode\<close> is claimed to mask the offset with \<open>0x3FF\<close>
  for every offset. The source does not mask: an offset of 1024 spills into the id field.
\<close>

theorem C2_encode_mask_counterexample:
  "Node_encode 0 1024 \<noteq> (push_bit 10 0 OR (1024 AND 0x3FF))"
  by (simp add: Node_encode_def OFFSET_BITS_def)

text \<open>
  C2, amended. For every id and offset, \<^verbatim>\<open>Node::encode(id, offset)\<close> is
  \<open>(id << 10) | offset\<close>, with no masking; for an offset below 1024 this is
  \<open>(id << 10) | (offset & 0x3FF)\<close>. For every id below \<open>2^54\<close> and offset below 1024
  the decoders \<^verbatim>\<open>Node::id\<close> and \<^verbatim>\<open>Node::offset\<close> give the id and the offset
  back. \<^verbatim>\<open>encode(5, 3)\<close> is 5123, with id 5 and offset 3.
\<close>

theorem C2_node_codec:
  "Node_encode node_id node_offset = (push_bit 10 node_id OR node_offset)
   \<and> (node_offset < 1024 \<longrightarrow>
        Node_encode node_id node_offset = (push_bit 10 node_id OR (node_offset AND 0x3FF)))
   \<and> (node_id < 2 ^ 54 \<and> node_offset < 1024 \<longrightarrow>
        Node_id (Node_encode node_id node_offset) = node_id
        \<and> Node_offset (Node_encode node_id node_offset) = node_offset)
   \<and> Node_encode 5 3 = 5123 \<and> Node_id 5123 = 5 \<and> Node_offset 5123 = 3"
proof -
  have a: "Node_encode node_id node_offset = (push_bit 10 node_id OR node_offset)"
    by (simp add: Node_encode_def OFFSET_BITS_def)
  have b: "node_offset < 1024 \<longrightarrow>
      Node_encode node_id node_offset = (push_bit 10 node_id OR (node_offset AND 0x3FF))"
    using small_offset_masked [of node_offset] by (simp add: a OFFSET_MASK_def)
  have c: "node_id < 2 ^ 54 \<and> node_offset < 1024 \<longrightarrow>
      Node_id (Node_encode node_id node_offset) = node_id
      \<and> Node_offset (Node_encode node_id node_offset) = node_offset"
    by (simp add: Node_id_encode Node_offset_encode)
  have d: "Node_encode 5 3 = 5123 \<and> Node_id 5123 = 5 \<and> Node_offset 5123 = 3"
    by (simp add: Node_encode_def Node_id_def Node_offset_def OFFSET_BITS_def OFFSET_MASK_def)
  from a b c d show ?thesis by blast
qed

theorem C2_node_codec_witness:
  "(7 :: size_type) < 2 ^ 54 \<and> (9 :: size_type) < 1024
   \<and> Node_encode 7 9 = (push_bit 10 7 OR (9 AND 0x3FF))
   \<and> Node_id (Node_encode 7 9) = 7 \<and> Node_offset (Node_encode 7 9) = 9"
proof -
  have "(7 :: size_type) < 2 ^ 54 \<and> (9 :: size_type) < 1024"
    by simp
  with C2_node_codec [of 7 9] show ?thesis
    by blast
qed

subsection \<open>SLArray counts\<close>

lemma counts_inv_init: "data a = replicate n 0 \<Longrightarrow> counts_inv n (\<lambda>i. 0) a"
  by (simp add: counts_inv_def LARGE_VALUE_def)

lemma byte_of_nat_255:
  assumes "c < 255" and "(of_nat c :: byte_type) + 1 = 255"
  shows "c = 254"
proof -
  have "(of_nat (c + 1) :: byte_type) = of_nat 255"
    using assms(2) by simp
  then have "(c + 1) mod 256 = 255 mod 256"
    by (simp only: word_of_nat_eq_iff take_bit_eq_mod) simp
  with assms(1) show ?thesis by simp
qed

lemma counts_inv_increment:
  assumes "counts_inv n cnt a" and "j < n"
  shows "\<exists>a'. SLArray_increment a j = Inr a' \<and> counts_inv n (cnt(j := cnt j + 1)) a'"
proof (cases "data a ! j = LARGE_VALUE")
  case True
  with assms have lv: "large_values a j = Some (of_nat (cnt j))" and big: "255 \<le> cnt j"
    by (auto simp: counts_inv_def)
  let ?a' = "a\<lparr>large_values := (large_values a)(j \<mapsto> map_entry (large_values a) j + 1)\<rparr>"
  have "SLArray_increment a j = Inr ?a'"
    using assms True by (simp add: SLArray_increment_def counts_inv_def)
  moreover have "counts_inv n (cnt(j := cnt j + 1)) ?a'"
    using assms True lv big by (auto simp: counts_inv_def map_entry_def)
  ultimately show ?thesis by blast
next
  case False
  with assms have small: "cnt j < 255" and d: "data a ! j = of_nat (cnt j)"
    by (auto simp: counts_inv_def)
  have len: "length (data a) = n" using assms by (simp add: counts_inv_def)
  let ?d = "(data a)[j := data a ! j + 1]"
  show ?thesis
  proof (cases "data a ! j + 1 = LARGE_VALUE")
    case True
    have c254: "cnt j = 254"
      using byte_of_nat_255 [OF small] True d by (simp add: LARGE_VALUE_def)
    let ?a' = "a\<lparr>data := ?d, large_values := (large_values a)(j \<mapsto> ucast LARGE_VALUE)\<rparr>"
    have "SLArray_increment a j = Inr ?a'"
      using assms \<open>data a ! j \<noteq> LARGE_VALUE\<close> True len
      by (simp add: SLArray_increment_def Let_def)
    moreover have "counts_inv n (cnt(j := cnt j + 1)) ?a'"
      using assms True len c254
      by (auto simp: counts_inv_def LARGE_VALUE_def nth_list_update)
    ultimately show ?thesis by blast
  next
    case unpromoted: False
    let ?a' = "a\<lparr>data := ?d\<rparr>"
    have "SLArray_increment a j = Inr ?a'"
      using assms \<open>data a ! j \<noteq> LARGE_VALUE\<close> unpromoted len
      by (simp add: SLArray_increment_def Let_def)
    moreover have "cnt j + 1 < 255"
    proof (rule ccontr)
      assume "\<not> cnt j + 1 < 255"
      with small have "cnt j = 254" by simp
      with d unpromoted show False by (simp add: LARGE_VALUE_def)
    qed
    then have "counts_inv n (cnt(j := cnt j + 1)) ?a'"
      using assms unpromoted len d
      by (auto simp: counts_inv_def nth_list_update)
    ultimately show ?thesis by blast
  qed
qed

lemma counts_inv_increments:
  assumes "counts_inv n cnt a" and "\<forall>j\<in>set js. j < n"
  shows "\<exists>a'. SLArray_increments a js = Inr a'
              \<and> counts_inv n (\<lambda>i. cnt i + count_list js i) a'"
  using assms
proof (induction js arbitrary: a cnt)
  case Nil
  then show ?case by simp
next
  case (Cons j js)
  then have "j < n" by simp
  from counts_inv_increment [OF Cons.prems(1) this]
  obtain a1 where s: "SLArray_increment a j = Inr a1"
    and i1: "counts_inv n (cnt(j := cnt j + 1)) a1" by blast
  from Cons.IH [OF i1] Cons.prems(2)
  obtain a' where r: "SLArray_increments a1 js = Inr a'"
    and i2: "counts_inv n (\<lambda>i. (cnt(j := cnt j + 1)) i + count_list js i) a'" by auto
  have "(\<lambda>i. (cnt(j := cnt j + 1)) i + count_list js i) = (\<lambda>i. cnt i + count_list (j # js) i)"
    by (rule ext) simp
  with i2 have "counts_inv n (\<lambda>i. cnt i + count_list (j # js) i) a'" by simp
  with s r show ?case by simp
qed

lemma counts_inv_get:
  assumes "counts_inv n cnt a" and "i < n"
  shows "SLArray_get a i = Inr (of_nat (cnt i))"
  using assms
  by (auto simp: counts_inv_def SLArray_get_def unsigned_of_nat take_bit_nat_eq_self)

text \<open>
  C7. Starting from an array of \<open>n\<close> slots in which every counter is zero (the state
  \<^verbatim>\<open>SLArray(n)\<close> constructs), every sequence of \<^verbatim>\<open>increment\<close> calls on indices below
  \<open>n\<close> runs without error, and afterwards \<^verbatim>\<open>operator[](i)\<close> returns, for every
  \<open>i < n\<close>, the number of \<^verbatim>\<open>increment(i)\<close> calls of the sequence as a
  \<^verbatim>\<open>size_type\<close> (the number itself whenever it is below \<open>2^64\<close>). A count of 255
  or more is held in \<^verbatim>\<open>large_values\<close>, under a byte equal to the sentinel 255.
\<close>

theorem C7_SLArray_counts:
  assumes "data a0 = replicate n 0" and "\<forall>j\<in>set js. j < n"
  shows "\<exists>a. SLArray_increments a0 js = Inr a
           \<and> (\<forall>i<n. SLArray_get a i = Inr (of_nat (count_list js i))
                    \<and> (count_list js i < 2 ^ 64 \<longrightarrow>
                        (\<exists>v. SLArray_get a i = Inr v \<and> unat v = count_list js i))
                    \<and> (255 \<le> count_list js i \<longrightarrow>
                        data a ! i = LARGE_VALUE
                        \<and> large_values a i = Some (of_nat (count_list js i))))"
proof -
  from counts_inv_increments [OF counts_inv_init [OF assms(1)] assms(2)]
  obtain a where r: "SLArray_increments a0 js = Inr a"
    and i: "counts_inv n (\<lambda>i. 0 + count_list js i) a" by blast
  have g: "\<forall>i<n. SLArray_get a i = Inr (of_nat (count_list js i))"
    using counts_inv_get [OF i] by simp
  have l: "\<forall>i<n. 255 \<le> count_list js i \<longrightarrow>
      data a ! i = LARGE_VALUE \<and> large_values a i = Some (of_nat (count_list js i))"
  proof (intro allI impI)
    fix i assume "i < n" and big: "255 \<le> count_list js i"
    with i have "if data a ! i = LARGE_VALUE
             then 255 \<le> count_list js i \<and> large_values a i = Some (of_nat (count_list js i))
             else count_list js i < 255 \<and> data a ! i = of_nat (count_list js i)"
      by (simp add: counts_inv_def)
    with big show "data a ! i = LARGE_VALUE
        \<and> large_values a i = Some (of_nat (count_list js i))"
      by (simp split: if_splits)
  qed
  from g l r show ?thesis
    by (auto simp: unat_of_nat take_bit_eq_mod)
qed

theorem C7_SLArray_counts_witness:
  "\<exists>a. SLArray_increments (SLArray_init 2) (replicate 300 1) = Inr a
       \<and> SLArray_get a 1 = Inr 300 \<and> SLArray_get a 0 = Inr 0
       \<and> data a ! 1 = LARGE_VALUE \<and> large_values a 1 = Some 300"
proof -
  have h: "\<forall>j\<in>set (replicate 300 (1 :: nat)). j < 2"
    by simp
  have c1: "count_list (replicate 300 (1 :: nat)) 1 = 300"
    by code_simp
  have c0: "count_list (replicate 300 (1 :: nat)) 0 = 0"
    by code_simp
  have z: "data (SLArray_init 2) = replicate 2 0"
    by (simp add: SLArray_init_def)
  from C7_SLArray_counts [OF z h]
  obtain a where r: "SLArray_increments (SLArray_init 2) (replicate 300 1) = Inr a"
    and p: "\<forall>i<2. SLArray_get a i = Inr (of_nat (count_list (replicate 300 1) i))
                    \<and> (count_list (replicate 300 1) i < 2 ^ 64 \<longrightarrow>
                        (\<exists>v. SLArray_get a i = Inr v \<and> unat v = count_list (replicate 300 1) i))
                    \<and> (255 \<le> count_list (replicate 300 1) i \<longrightarrow>
                        data a ! i = LARGE_VALUE
                        \<and> large_values a i = Some (of_nat (count_list (replicate 300 1) i)))"
    by blast
  from p have "SLArray_get a 1 = Inr 300 \<and> data a ! 1 = LARGE_VALUE \<and> large_values a 1 = Some 300"
    using c1 by (simp add: numeral_2_eq_2)
  moreover from p have "SLArray_get a 0 = Inr 0"
    using c0 by (simp add: numeral_2_eq_2)
  ultimately show ?thesis using r by blast
qed

text \<open>
  C10. \<^verbatim>\<open>SLArray::size()\<close> returns the length of the byte vector converted to
  \<^verbatim>\<open>bool\<close>: it is true exactly when the array has a slot. As a number it is 1 for an
  array of \<open>n \<ge> 1\<close> slots and 0 for an array without slots, so it differs from the number
  of slots whenever \<open>n \<ge> 2\<close>.
\<close>

theorem C10_SLArray_size_bool:
  "SLArray_size a = (length (data a) \<noteq> 0)
   \<and> (of_bool (SLArray_size a) :: nat) = (if length (data a) = 0 then 0 else 1)
   \<and> (1 \<le> length (data a) \<longrightarrow> SLArray_size a)
   \<and> (length (data a) = 0 \<longrightarrow> \<not> SLArray_size a)
   \<and> (2 \<le> length (data a) \<longrightarrow> (of_bool (SLArray_size a) :: nat) \<noteq> length (data a))"
  by (simp add: SLArray_size_def)

theorem C10_SLArray_size_bool_witness:
  "(of_bool (SLArray_size (SLArray_init 5)) :: nat) = 1
   \<and> SLArray_size (SLArray_init 5)
   \<and> (of_bool (SLArray_size (SLArray_init 5)) :: nat) \<noteq> 5
   \<and> \<not> SLArray_size (SLArray_init 0)"
proof -
  have n: "length (data (SLArray_init 5)) = 5" and z: "length (data (SLArray_init 0)) = 0"
    by (simp_all add: SLArray_init_def)
  from C10_SLArray_size_bool [of "SLArray_init 5"] C10_SLArray_size_bool [of "SLArray_init 0"]
  show ?thesis
    by (simp add: n z)
qed

subsection \<open>Path node comparisons\<close>

lemma label_compare_lexord:
  assumes "i \<le> min la lb" and "la \<le> length xs" and "lb \<le> length ys"
  shows "label_compare xs ys (min la lb) i (la < lb)
           = Some ((drop i (take la xs), drop i (take lb ys)) \<in> lexord rank_less)"
  using assms(1)
proof (induction "min la lb - i" arbitrary: i)
  case 0
  then have i: "i = min la lb" by simp
  have "label_compare xs ys (min la lb) i (la < lb) = Some (la < lb)"
    using i by (simp add: label_compare.simps)
  moreover have "((drop i (take la xs), drop i (take lb ys)) \<in> lexord rank_less) = (la < lb)"
  proof (cases "la \<le> lb")
    case True
    then have e: "drop i (take la xs) = []" using i by simp
    have "length (drop i (take lb ys)) = lb - la"
      using i True assms(3) by simp
    then have "(drop i (take lb ys) \<noteq> []) = (la < lb)"
      by (metis length_greater_0_conv zero_less_diff)
    then have "(\<exists>a x. drop i (take lb ys) = a # x) = (la < lb)"
      by (simp only: neq_Nil_conv)
    then show ?thesis by (simp only: e lexord_Nil_left)
  next
    case False
    then have "drop i (take lb ys) = []" using i by simp
    then show ?thesis using False by simp
  qed
  ultimately show ?case by simp
next
  case (Suc n)
  from Suc.hyps(2) have lt: "i < min la lb" by arith
  then have ix: "i < length xs" and iy: "i < length ys" using assms(2,3) by auto
  have dx: "drop i (take la xs) = xs ! i # drop (Suc i) (take la xs)"
    using lt assms(2) by (simp add: Cons_nth_drop_Suc [symmetric])
  have dy: "drop i (take lb ys) = ys ! i # drop (Suc i) (take lb ys)"
    using lt assms(3) by (simp add: Cons_nth_drop_Suc [symmetric])
  show ?case
  proof (cases "xs ! i = ys ! i")
    case True
    have "label_compare xs ys (min la lb) i (la < lb)
            = label_compare xs ys (min la lb) (Suc i) (la < lb)"
      using lt ix iy True by (subst label_compare.simps) simp
    also have "\<dots> = Some ((drop (Suc i) (take la xs), drop (Suc i) (take lb ys)) \<in> lexord rank_less)"
      using Suc.hyps(1) [of "Suc i"] Suc.hyps(2) lt by simp
    finally show ?thesis
      using True by (simp add: dx dy rank_less_def)
  next
    case False
    have "label_compare xs ys (min la lb) i (la < lb) = Some (xs ! i < ys ! i)"
      using lt ix iy False by (subst label_compare.simps) simp
    then show ?thesis
      using False by (simp add: dx dy rank_less_def)
  qed
qed

lemma valid_order_bounds:
  assumes "valid_PathNode p"
  shows "unat (PathNode_order p) \<le> length (first_label p)"
    and "unat (PathNode_order p) \<le> length (last_label p)"
    and "0 < unat (PathNode_order p)"
proof -
  have "unat (PathNode_order p) \<le> unat (8 :: size_type)"
    using assms by (simp add: valid_PathNode_def word_le_nat_alt)
  then show "unat (PathNode_order p) \<le> length (first_label p)"
    and "unat (PathNode_order p) \<le> length (last_label p)"
    using assms by (simp_all add: valid_PathNode_def LABEL_LENGTH_def)
  have "unat (1 :: size_type) \<le> unat (PathNode_order p)"
    using assms by (simp add: valid_PathNode_def word_le_nat_alt)
  then show "0 < unat (PathNode_order p)" by simp
qed

lemma unat_min: "unat (min a b) = min (unat a) (unat b)"
  by (simp add: min_def word_le_nat_alt)

lemma PathNode_less_lexord:
  assumes "valid_PathNode a" and "valid_PathNode b"
  shows "PathNode_less a b = Some ((first_seq a, first_seq b) \<in> lexord rank_less)"
proof -
  have "label_compare (first_label a) (first_label b)
          (min (unat (PathNode_order a)) (unat (PathNode_order b))) 0
          (unat (PathNode_order a) < unat (PathNode_order b))
        = Some ((drop 0 (take (unat (PathNode_order a)) (first_label a)),
                 drop 0 (take (unat (PathNode_order b)) (first_label b))) \<in> lexord rank_less)"
    by (rule label_compare_lexord)
      (simp_all add: valid_order_bounds [OF assms(1)] valid_order_bounds [OF assms(2)])
  then show ?thesis
    by (simp add: PathNode_less_def first_seq_def unat_min word_less_nat_alt)
qed

lemma label_compare_equal_prefix:
  assumes "\<forall>j. i \<le> j \<and> j < ord \<longrightarrow> xs ! j = ys ! j"
    and "ord \<le> length xs" and "ord \<le> length ys"
  shows "label_compare xs ys ord i tie = Some tie"
  using assms
proof (induction "ord - i" arbitrary: i)
  case 0
  then show ?case by (simp add: label_compare.simps)
next
  case (Suc n)
  then have lt: "i < ord" by simp
  have "label_compare xs ys ord i tie = label_compare xs ys ord (Suc i) tie"
    using lt Suc.prems by (subst label_compare.simps) simp
  also have "\<dots> = Some tie"
    using Suc.hyps(1) [of "Suc i"] Suc.hyps(2) Suc.prems by simp
  finally show ?case .
qed

lemma strict_prefix_take:
  assumes "strict_prefix (take la xs) (take lb ys)" and "la \<le> length xs" and "lb \<le> length ys"
  shows "la < lb" and "\<forall>j<la. xs ! j = ys ! j"
proof -
  from assms(1) obtain zs where e: "take lb ys = take la xs @ zs" and z: "zs \<noteq> []"
    by (auto simp: strict_prefix_def prefix_def)
  from e have "length (take lb ys) = length (take la xs) + length zs"
    by (metis length_append)
  with z assms(2,3) show lt: "la < lb" by simp
  show "\<forall>j<la. xs ! j = ys ! j"
  proof (intro allI impI)
    fix j assume j: "j < la"
    have "ys ! j = take lb ys ! j" using j lt by simp
    also have "\<dots> = (take la xs @ zs) ! j" by (simp only: e)
    also have "\<dots> = take la xs ! j" using j assms(2) by (simp add: nth_append)
    also have "\<dots> = xs ! j" using j by simp
    finally show "xs ! j = ys ! j" by simp
  qed
qed

lemma compareLast_prefix:
  assumes "valid_PathNode a" and "valid_PathNode b"
    and "strict_prefix (last_seq a) (last_seq b)"
  shows "PathNode_compareLast b a = Some True" and "PathNode_compareLast a b = Some False"
proof -
  let ?la = "unat (PathNode_order a)" and ?lb = "unat (PathNode_order b)"
  note va = valid_order_bounds [OF assms(1)] and vb = valid_order_bounds [OF assms(2)]
  from strict_prefix_take [OF assms(3) [unfolded last_seq_def] va(2) vb(2)]
  have lt: "?la < ?lb" and eq: "\<forall>j<?la. last_label a ! j = last_label b ! j" by auto
  have m: "min ?la ?lb = ?la" "min ?lb ?la = ?la" using lt by simp_all
  have "label_compare (last_label b) (last_label a) ?la 0 (?la < ?lb) = Some (?la < ?lb)"
    by (rule label_compare_equal_prefix) (use eq va vb lt in auto)
  then show "PathNode_compareLast b a = Some True"
    using lt by (simp add: PathNode_compareLast_def unat_min m word_less_nat_alt)
  have "label_compare (last_label a) (last_label b) ?la 0 (?lb < ?la) = Some (?lb < ?la)"
    by (rule label_compare_equal_prefix) (use eq va vb lt in auto)
  then show "PathNode_compareLast a b = Some False"
    using lt by (simp add: PathNode_compareLast_def unat_min m word_less_nat_alt)
qed

lemma rank_less_props:
  "\<forall>x. (x, x) \<notin> rank_less" "trans rank_less"
  "\<forall>a b. (a, b) \<in> rank_less \<or> a = b \<or> (b, a) \<in> rank_less"
  "asym rank_less"
  by (auto simp: rank_less_def trans_def intro: asymI)

text \<open>
  C6, as stated. \<^verbatim>\<open>operator<\<close> is claimed to be total on path nodes with distinct
  label ranges. It reads \<^verbatim>\<open>first_label\<close> only: two nodes of order 1 with the same
  first rank and different last ranks have distinct label ranges, and neither is less than
  the other.
\<close>

theorem C6_total_counterexample:
  "valid_PathNode (path_node [1] [1] 1) \<and> valid_PathNode (path_node [1] [2] 1)
   \<and> last_seq (path_node [1] [1] 1) \<noteq> last_seq (path_node [1] [2] 1)
   \<and> PathNode_less (path_node [1] [1] 1) (path_node [1] [2] 1) = Some False
   \<and> PathNode_less (path_node [1] [2] 1) (path_node [1] [1] 1) = Some False"
  by code_simp

text \<open>
  C6, amended. For path nodes \<open>a\<close>, \<open>b\<close>, \<open>c\<close> with orders in \<open>[1, 8]\<close>: if the
  first rank sequence of \<open>a\<close> is a proper prefix of that of \<open>b\<close> then \<open>a < b\<close>;
  \<^verbatim>\<open>operator<\<close> is irreflexive, asymmetric and transitive, and it compares any two
  nodes whose first rank sequences differ (a strict total order on path nodes with distinct
  \<^verbatim>\<open>first_label\<close> sequences); and if the last rank sequence of \<open>a\<close> is a proper
  prefix of that of \<open>b\<close> then \<^verbatim>\<open>b.compareLast(a)\<close> holds and
  \<^verbatim>\<open>a.compareLast(b)\<close> does not.
\<close>

theorem C6_PathNode_order:
  assumes "valid_PathNode a" and "valid_PathNode b" and "valid_PathNode c"
  shows "(strict_prefix (first_seq a) (first_seq b) \<longrightarrow> PathNode_less a b = Some True)
    \<and> PathNode_less a a = Some False
    \<and> (PathNode_less a b = Some True \<longrightarrow> PathNode_less b a = Some False)
    \<and> (PathNode_less a b = Some True \<and> PathNode_less b c = Some True
         \<longrightarrow> PathNode_less a c = Some True)
    \<and> (first_seq a \<noteq> first_seq b
         \<longrightarrow> PathNode_less a b = Some True \<or> PathNode_less b a = Some True)
    \<and> (strict_prefix (last_seq a) (last_seq b)
         \<longrightarrow> PathNode_compareLast b a = Some True \<and> PathNode_compareLast a b = Some False)"
proof -
  note L = PathNode_less_lexord
  have p: "strict_prefix (first_seq a) (first_seq b) \<longrightarrow> PathNode_less a b = Some True"
  proof
    assume "strict_prefix (first_seq a) (first_seq b)"
    then obtain z zs where "first_seq b = first_seq a @ z # zs"
      by (auto simp: strict_prefix_def prefix_def neq_Nil_conv)
    then have "(first_seq a, first_seq b) \<in> lexord rank_less"
      by (simp add: lexord_append_rightI)
    then show "PathNode_less a b = Some True"
      by (simp add: L [OF assms(1,2)])
  qed
  have i: "PathNode_less a a = Some False"
    using lexord_irreflexive [OF rank_less_props(1)] by (simp add: L [OF assms(1,1)])
  have s: "PathNode_less a b = Some True \<longrightarrow> PathNode_less b a = Some False"
    using lexord_asymmetric [of rank_less "first_seq a" "first_seq b"] rank_less_props(4)
    by (auto simp: L [OF assms(1,2)] L [OF assms(2,1)])
  have t: "PathNode_less a b = Some True \<and> PathNode_less b c = Some True
         \<longrightarrow> PathNode_less a c = Some True"
    using lexord_trans [OF _ _ rank_less_props(2)]
    by (auto simp: L [OF assms(1,2)] L [OF assms(2,3)] L [OF assms(1,3)])
  have l: "first_seq a \<noteq> first_seq b
         \<longrightarrow> PathNode_less a b = Some True \<or> PathNode_less b a = Some True"
    using lexord_linear [OF rank_less_props(3), of "first_seq a" "first_seq b"]
    by (auto simp: L [OF assms(1,2)] L [OF assms(2,1)])
  have cl: "strict_prefix (last_seq a) (last_seq b)
         \<longrightarrow> PathNode_compareLast b a = Some True \<and> PathNode_compareLast a b = Some False"
    using compareLast_prefix [OF assms(1,2)] by blast
  from p i s t l cl show ?thesis by blast
qed


theorem C6_PathNode_order_witness:
  "PathNode_less (path_node [1] [2] 1) (path_node [1, 0] [2, 5] 2) = Some True
   \<and> PathNode_less (path_node [1] [2] 1) (path_node [1] [2] 1) = Some False
   \<and> PathNode_compareLast (path_node [1, 0] [2, 5] 2) (path_node [1] [2] 1) = Some True
   \<and> PathNode_compareLast (path_node [1] [2] 1) (path_node [1, 0] [2, 5] 2) = Some False"
proof -
  have v1: "valid_PathNode (path_node [1] [2] 1)"
    by code_simp
  have v2: "valid_PathNode (path_node [1, 0] [2, 5] 2)"
    by code_simp
  have v3: "valid_PathNode (path_node [3] [3] 1)"
    by code_simp
  have s1: "strict_prefix (first_seq (path_node [1] [2] 1))
      (first_seq (path_node [1, 0] [2, 5] 2))"
    by code_simp
  have s2: "strict_prefix (last_seq (path_node [1] [2] 1))
      (last_seq (path_node [1, 0] [2, 5] 2))"
    by code_simp
  from C6_PathNode_order [OF v1 v2 v3] s1 s2 show ?thesis
    by blast
qed

subsection \<open>Key round trip\<close>

lemma byte_below_8_bits:
  fixes x :: byte_type
  assumes "x < 8" and "bit x n"
  shows "n < 3"
proof -
  have "x AND mask 3 = x"
    using assms(1) by (simp add: less_mask_eq)
  then have "bit (x AND mask 3) n"
    using assms(2) by simp
  then show ?thesis
    by (simp add: bit_simps)
qed

lemma byte_bit:
  fixes x :: byte_type
  shows "bit x n \<Longrightarrow> n < 8"
  by (auto dest: bit_imp_le_length)

lemma unat_ucast_byte: "unat (ucast (x :: byte_type) :: key_type) = unat x"
proof -
  have "unat x < 2 ^ 8"
    using unsigned_less [of x, where 'a = nat] by simp
  then have "unat x < 18446744073709551616"
    by simp
  then show ?thesis
    by (simp add: unsigned_ucast_eq take_bit_nat_eq_self_iff)
qed

lemma mask255: "(0xFF :: key_type) = mask 8"
  by (simp add: mask_eq_exp_minus_1)

lemma CHAR_MASK_mask: "CHAR_MASK = mask 3"
  by (simp add: CHAR_MASK_def mask_eq_exp_minus_1)

lemma Key_successors_pack:
  "Key_successors (push_bit 8 (push_bit 8 v OR ucast (pred :: byte_type)) OR ucast succ) = succ"
  unfolding Key_successors_def mask255
  by (rule bit_word_eqI) (auto simp: bit_simps dest: byte_bit)

lemma Key_predecessors_pack:
  "Key_predecessors (push_bit 8 (push_bit 8 v OR ucast pred) OR ucast (succ :: byte_type)) = pred"
  unfolding Key_predecessors_def mask255
  by (rule bit_word_eqI) (auto simp: bit_simps dest: byte_bit)

lemma encode_loop_Some:
  assumes "\<forall>c\<in>set kmer. unat (char_index char_signed c) < length (char2comp alpha)"
  shows "encode_loop char_signed alpha v kmer
           = Some (pack_comps v (map (\<lambda>c. char2comp alpha ! unat (char_index char_signed c)) kmer))"
  using assms
  by (induction kmer arbitrary: v) (simp_all add: encode_step_def pack_comps_def Let_def)

lemma encode_loop_None:
  assumes "c \<in> set kmer" and "length (char2comp alpha) \<le> unat (char_index char_signed c)"
  shows "encode_loop char_signed alpha v kmer = None"
  using assms
  by (induction kmer arbitrary: v) (auto simp: encode_step_def Let_def split: option.splits)

lemma Key_encode_outside_table:
  assumes "c \<in> set kmer" and "length (char2comp alpha) \<le> unat (char_index char_signed c)"
  shows "Key_encode char_signed alpha kmer pred succ = None"
  by (simp add: Key_encode_def encode_loop_None [OF assms])

lemma pack_comps_snoc:
  "pack_comps v (xs @ [x]) = push_bit CHAR_WIDTH (pack_comps v xs) OR ucast x"
  by (simp add: pack_comps_def)

lemma packed_bits:
  assumes "\<forall>x\<in>set xs. x < 8"
  shows "bit (pack_comps 0 xs) m
           = (m < 64 \<and> m < 3 * length xs \<and> bit (rev xs ! (m div 3)) (m mod 3))"
  using assms
proof (induction xs arbitrary: m rule: rev_induct)
  case Nil
  then show ?case by (simp add: pack_comps_def)
next
  case (snoc x xs)
  let ?v = "pack_comps 0 xs"
  have small: "x < 8" using snoc.prems by simp
  have IH: "\<And>m. bit ?v m = (m < 64 \<and> m < 3 * length xs
              \<and> bit (rev xs ! (m div 3)) (m mod 3))"
    using snoc.IH snoc.prems by simp
  have step: "bit (pack_comps 0 (xs @ [x])) m
      = (m < 64 \<and> (3 \<le> m \<and> bit ?v (m - 3) \<or> bit x m))"
    using byte_below_8_bits [OF small, of m]
    by (auto simp: pack_comps_snoc CHAR_WIDTH_def bit_simps)
  show ?case
  proof (cases "m < 3")
    case True
    then have "m div 3 = 0" "m mod 3 = m" by simp_all
    then show ?thesis using True by (simp add: step)
  next
    case False
    then have d: "m div 3 = Suc ((m - 3) div 3)" and md: "m mod 3 = (m - 3) mod 3"
      by presburger+
    have nb: "\<not> bit x m" using byte_below_8_bits [OF small, of m] False by blast
    have "(m - 3 < 3 * length xs) = (m < 3 * length (xs @ [x]))" using False by auto
    then show ?thesis
      using False nb by (auto simp: step IH d md)
  qed
qed

lemma Key_label_pack:
  fixes pred succ :: byte_type
  assumes "length xs \<le> 16" and "\<forall>x\<in>set xs. x < 8"
  shows "Key_label (push_bit 8 (push_bit 8 (pack_comps 0 xs) OR ucast pred) OR ucast succ)
           = pack_comps 0 xs"
  unfolding Key_label_def
proof (rule bit_word_eqI)
  fix n assume "n < LENGTH(64)"
  have "bit (pack_comps 0 xs) n \<Longrightarrow> n < 48"
    using assms(1) by (simp add: packed_bits [OF assms(2)])
  then show "bit (drop_bit 16 (push_bit 8 (push_bit 8 (pack_comps 0 xs)
          OR ucast pred) OR ucast succ)) n = bit (pack_comps 0 xs) n"
    by (auto simp: bit_simps dest: byte_bit)
qed

lemma label_digit_pack:
  assumes "length xs \<le> 16" and "\<forall>x\<in>set xs. x < 8" and "i < length xs"
  shows "label_digit (pack_comps 0 xs) (length xs) i = unat (xs ! i)"
proof -
  let ?v = "pack_comps 0 xs"
  let ?s = "3 * (length xs - 1 - i)"
  let ?x = "xs ! i"
  have small: "?x < 8" using assms(2,3) by simp
  have r: "rev xs ! (length xs - Suc i) = xs ! i"
    using assms(3) by (simp add: rev_nth Suc_diff_Suc)
  have "drop_bit ?s ?v AND mask 3 = (ucast ?x :: key_type)"
  proof (rule bit_word_eqI)
    fix n assume "n < LENGTH(64)"
    have "n < 3 \<Longrightarrow> (?s + n) div 3 = length xs - 1 - i \<and> (?s + n) mod 3 = n"
      by simp
    moreover have "n < 3 \<Longrightarrow> ?s + n < 64 \<and> ?s + n < 3 * length xs"
      using assms(1,3) by auto
    ultimately show "bit (drop_bit ?s ?v AND mask 3) n = bit (ucast ?x :: key_type) n"
      using byte_below_8_bits [OF small, of n]
      by (auto simp: bit_simps packed_bits [OF assms(2)] r)
  qed
  then show ?thesis
    by (simp add: label_digit_def CHAR_WIDTH_def CHAR_MASK_mask unat_ucast_byte)
qed

lemma label_padding:
  assumes "\<forall>x\<in>set xs. x < 8"
  shows "drop_bit (3 * length xs) (pack_comps 0 xs) = 0"
  by (rule bit_word_eqI) (simp add: bit_simps packed_bits [OF assms])

text \<open>
  C3, as stated. The round trip through \<^verbatim>\<open>Key::decode\<close> is claimed for every
  alphabet and every k-mer whose characters map to comp values below 8. With an alphabet
  that folds case, the k-mer \<^verbatim>\<open>"acg"\<close> has comp values below 8, its key is that of
  \<^verbatim>\<open>"ACG"\<close> without masks, and the key decodes to \<^verbatim>\<open>"ACG"\<close>. And where plain
  \<^verbatim>\<open>char\<close> is signed, the byte \<open>0xC8\<close>, which the 256-entry table of the worked
  example sends to 0, is read at index \<open>2^64 - 56\<close>, outside the table, so that
  \<^verbatim>\<open>Key::encode\<close> has no defined key for it.
\<close>

theorem C3_decode_counterexample:
  "length ''acg'' \<le> 16
   \<and> comp_below_8 True folding_alphabet ''acg'' \<and> comp_below_8 False folding_alphabet ''acg''
   \<and> Key_encode True folding_alphabet ''acg'' 0 0 = Some 0x530000
   \<and> Key_encode False folding_alphabet ''acg'' 0 0 = Some 0x530000
   \<and> Key_decode 0x530000 (length ''acg'') folding_alphabet = ''ACG''
   \<and> Key_decode 0x530000 (length ''acg'') folding_alphabet \<noteq> ''acg''
   \<and> length (char2comp dna_alphabet) = 256 \<and> char2comp dna_alphabet ! 0xC8 = 0
   \<and> unat (char_index True (CHR 0xC8)) = 18446744073709551560
   \<and> Key_encode True dna_alphabet [CHR 0xC8] 0 0 = None"
proof -
  have c1: "length ''acg'' \<le> 16"
    by simp
  have c2: "comp_below_8 True folding_alphabet ''acg''"
    and c3: "comp_below_8 False folding_alphabet ''acg''"
    by code_simp+
  have c4: "Key_encode True folding_alphabet ''acg'' 0 0 = Some 0x530000"
    and c5: "Key_encode False folding_alphabet ''acg'' 0 0 = Some 0x530000"
    by code_simp+
  have c6: "Key_decode 0x530000 (length ''acg'') folding_alphabet = ''ACG''"
    by code_simp
  have c7: "Key_decode 0x530000 (length ''acg'') folding_alphabet \<noteq> ''acg''"
    by (simp only: c6) simp
  have c8: "length (char2comp dna_alphabet) = 256"
    by (simp add: dna_alphabet_def dna_length)
  have c9: "char2comp dna_alphabet ! 0xC8 = 0"
    by (simp add: dna_alphabet_def dna_char2comp_def)
  have c10: "unat (char_index True (CHR 0xC8)) = 18446744073709551560"
    by (simp add: char_index_def)
  have c11: "Key_encode True dna_alphabet [CHR 0xC8] 0 0 = None"
    by (simp add: Key_encode_def encode_step_def Let_def c10 c8)
  show ?thesis
    by (intro conjI c1 c2 c3 c4 c5 c6 c7 c8 c9 c10 c11)
qed

text \<open>
  C3, amended. Take any alphabet, with plain \<^verbatim>\<open>char\<close> signed or not, any k-mer of
  length at most 16 whose characters, converted to table indices, lie inside
  \<^verbatim>\<open>char2comp\<close> and map to comp values below 8, and any predecessor and successor
  bytes. Then \<^verbatim>\<open>Key::encode\<close> returns a key; the key has the given predecessor and
  successor bytes, and its label is the big-endian 3-bit packing of the comp values: digit
  \<open>i\<close> of the \<open>length kmer\<close> digits is the comp value of character \<open>i\<close>, and all
  bits above these digits are zero. If moreover \<^verbatim>\<open>comp2char\<close> maps the comp value of
  every character of the k-mer back to that character, decoding the key with the k-mer's
  length gives the k-mer.
\<close>

theorem C3_key_round_trip:
  assumes "length kmer \<le> 16" and "comp_below_8 char_signed alpha kmer"
  shows "\<exists>key. Key_encode char_signed alpha kmer pred succ = Some key
    \<and> Key_predecessors key = pred
    \<and> Key_successors key = succ
    \<and> (\<forall>i<length kmer.
          label_digit (Key_label key) (length kmer) i
            = unat (char2comp alpha ! unat (char_index char_signed (kmer ! i))))
    \<and> drop_bit (3 * length kmer) (Key_label key) = 0
    \<and> (comp_invertible char_signed alpha kmer
         \<longrightarrow> Key_decode key (length kmer) alpha = kmer)"
proof -
  let ?xs = "map (\<lambda>c. char2comp alpha ! unat (char_index char_signed c)) kmer"
  define key where
    "key = push_bit 8 (push_bit 8 (pack_comps 0 ?xs) OR ucast pred) OR ucast succ"
  have t: "\<forall>c\<in>set kmer. unat (char_index char_signed c) < length (char2comp alpha)"
    using assms(2) by (simp add: comp_below_8_def list_all_iff)
  have b: "\<forall>x\<in>set ?xs. x < 8"
    using assms(2) by (simp add: comp_below_8_def list_all_iff)
  have l: "length ?xs \<le> 16"
    using assms(1) by simp
  have e: "Key_encode char_signed alpha kmer pred succ = Some key"
    by (simp add: Key_encode_def encode_loop_Some [OF t] key_def)
  have lab: "Key_label key = pack_comps 0 ?xs"
    unfolding key_def by (rule Key_label_pack [OF l b])
  have d: "\<forall>i<length kmer. label_digit (Key_label key) (length kmer) i
             = unat (char2comp alpha ! unat (char_index char_signed (kmer ! i)))"
    using label_digit_pack [OF l b] by (simp add: lab)
  have p: "drop_bit (3 * length kmer) (Key_label key) = 0"
    using label_padding [OF b] by (simp add: lab)
  have r: "comp_invertible char_signed alpha kmer
             \<longrightarrow> Key_decode key (length kmer) alpha = kmer"
  proof
    assume "comp_invertible char_signed alpha kmer"
    then have inv: "\<forall>c\<in>set kmer.
        comp2char alpha ! unat (char2comp alpha ! unat (char_index char_signed c)) = c"
      by (simp add: comp_invertible_def list_all_iff)
    show "Key_decode key (length kmer) alpha = kmer"
      by (rule nth_equalityI) (simp_all add: Key_decode_def d inv)
  qed
  have ps: "Key_predecessors key = pred \<and> Key_successors key = succ"
    unfolding key_def by (simp only: Key_predecessors_pack Key_successors_pack)
  have "Key_encode char_signed alpha kmer pred succ = Some key
    \<and> Key_predecessors key = pred
    \<and> Key_successors key = succ
    \<and> (\<forall>i<length kmer.
          label_digit (Key_label key) (length kmer) i
            = unat (char2comp alpha ! unat (char_index char_signed (kmer ! i))))
    \<and> drop_bit (3 * length kmer) (Key_label key) = 0
    \<and> (comp_invertible char_signed alpha kmer
         \<longrightarrow> Key_decode key (length kmer) alpha = kmer)"
    by (intro conjI e d p r conjunct1 [OF ps] conjunct2 [OF ps])
  then show ?thesis
    by (rule exI)
qed

theorem C3_key_round_trip_witness:
  "Key_encode True dna_alphabet ''GATTACA'' 5 9 = Some 0xcc8510509
   \<and> Key_predecessors 0xcc8510509 = 5
   \<and> Key_successors 0xcc8510509 = 9
   \<and> label_digit (Key_label 0xcc8510509) 7 0 = 3
   \<and> drop_bit (3 * 7) (Key_label 0xcc8510509) = 0
   \<and> Key_decode 0xcc8510509 7 dna_alphabet = ''GATTACA''"
proof -
  have l: "length ''GATTACA'' \<le> 16"
    by simp
  have b: "comp_below_8 True dna_alphabet ''GATTACA''"
    by code_simp
  have i: "comp_invertible True dna_alphabet ''GATTACA''"
    by code_simp
  have n: "length ''GATTACA'' = 7"
    by simp
  have e: "Key_encode True dna_alphabet ''GATTACA'' 5 9 = Some 0xcc8510509"
    by code_simp
  have g: "unat (char2comp dna_alphabet ! unat (char_index True (''GATTACA'' ! 0))) = 3"
    by code_simp
  from C3_key_round_trip [OF l b, of 5 9, unfolded n e] obtain key where
    k: "0xcc8510509 = key" and
    ps: "Key_predecessors key = 5" "Key_successors key = 9" and
    dg: "\<forall>i<7. label_digit (Key_label key) 7 i
           = unat (char2comp dna_alphabet ! unat (char_index True (''GATTACA'' ! i)))" and
    pd: "drop_bit (3 * 7) (Key_label key) = 0" and
    rt: "comp_invertible True dna_alphabet ''GATTACA''
           \<longrightarrow> Key_decode key 7 dna_alphabet = ''GATTACA''"
    by blast
  have "label_digit (Key_label key) 7 0 = 3"
    using dg g by simp
  with e k ps pd rt i show ?thesis
    by blast
qed

subsection \<open>Key::lcp on labels\<close>

lemma masked_eq_iff:
  assumes "j \<le> 20"
  shows "(a AND push_bit (CHAR_WIDTH * j) CHAR_MASK = b AND push_bit (CHAR_WIDTH * j) CHAR_MASK)
           = (digit_at a j = digit_at b j)"
proof
  assume e: "a AND push_bit (CHAR_WIDTH * j) CHAR_MASK = b AND push_bit (CHAR_WIDTH * j) CHAR_MASK"
  show "digit_at a j = digit_at b j"
    unfolding digit_at_def
  proof (rule bit_word_eqI)
    fix n assume n: "n < LENGTH(64)"
    have "bit (a AND push_bit (CHAR_WIDTH * j) CHAR_MASK) (CHAR_WIDTH * j + n)
        = bit (b AND push_bit (CHAR_WIDTH * j) CHAR_MASK) (CHAR_WIDTH * j + n)"
      by (simp only: e)
    then show "bit (drop_bit (CHAR_WIDTH * j) a AND CHAR_MASK) n
        = bit (drop_bit (CHAR_WIDTH * j) b AND CHAR_MASK) n"
      using assms by (auto simp: bit_simps CHAR_MASK_mask CHAR_WIDTH_def)
  qed
next
  assume e: "digit_at a j = digit_at b j"
  show "a AND push_bit (CHAR_WIDTH * j) CHAR_MASK = b AND push_bit (CHAR_WIDTH * j) CHAR_MASK"
  proof (rule bit_word_eqI)
    fix n assume n: "n < LENGTH(64)"
    have "bit (digit_at a j) (n - CHAR_WIDTH * j) = bit (digit_at b j) (n - CHAR_WIDTH * j)"
      by (simp only: e)
    then show "bit (a AND push_bit (CHAR_WIDTH * j) CHAR_MASK) n
        = bit (b AND push_bit (CHAR_WIDTH * j) CHAR_MASK) n"
      using assms by (auto simp: bit_simps CHAR_MASK_mask CHAR_WIDTH_def digit_at_def)
  qed
qed

lemma mask_pos:
  assumes "j \<le> 20"
  shows "0 < push_bit (CHAR_WIDTH * j) CHAR_MASK"
proof -
  have "bit (push_bit (CHAR_WIDTH * j) CHAR_MASK) (CHAR_WIDTH * j)"
    using assms by (simp add: bit_simps CHAR_MASK_mask CHAR_WIDTH_def)
  then have "push_bit (CHAR_WIDTH * j) CHAR_MASK \<noteq> 0"
    by (metis bit_0_eq bot_apply bot_bool_def)
  then show ?thesis by (simp add: word_greater_zero_iff)
qed

lemma drop_mask:
  "drop_bit CHAR_WIDTH (push_bit (CHAR_WIDTH * Suc j) CHAR_MASK)
     = push_bit (CHAR_WIDTH * j) CHAR_MASK" if "Suc j \<le> 20"
  using that
  by (intro bit_word_eqI) (auto simp: bit_simps CHAR_MASK_mask CHAR_WIDTH_def)

lemma drop_mask0: "drop_bit CHAR_WIDTH CHAR_MASK = 0"
  by (simp add: CHAR_MASK_def CHAR_WIDTH_def drop_bit_eq_div)

lemma lcp_loop_equal_digits:
  assumes "j \<le> 20"
  shows "lcp_loop a b (push_bit (CHAR_WIDTH * j) CHAR_MASK) res = res + of_nat (equal_digits a b j)"
  using assms
proof (induction j arbitrary: res)
  case 0
  have "lcp_loop a b (push_bit (CHAR_WIDTH * 0) CHAR_MASK) res = lcp_loop a b 0 (res + 1)"
    using mask_pos [of 0] by (subst lcp_loop.simps) (simp add: drop_mask0)
  also have "\<dots> = res + 1"
    by (subst lcp_loop.simps) simp
  finally show ?case by simp
next
  case (Suc j)
  then have j: "j \<le> 20" by simp
  note d = drop_mask [OF Suc.prems]
  show ?case
  proof (cases "digit_at a j = digit_at b j")
    case True
    then have "lcp_loop a b (push_bit (CHAR_WIDTH * Suc j) CHAR_MASK) res
        = lcp_loop a b (push_bit (CHAR_WIDTH * j) CHAR_MASK) (res + 1)"
      using mask_pos [OF Suc.prems] masked_eq_iff [OF j, of a b]
      by (subst lcp_loop.simps) (simp add: d del: mult_Suc_right)
    then show ?thesis using True Suc.IH [OF j] by simp
  next
    case False
    then have "lcp_loop a b (push_bit (CHAR_WIDTH * Suc j) CHAR_MASK) res = res"
      using mask_pos [OF Suc.prems] masked_eq_iff [OF j, of a b]
      by (subst lcp_loop.simps) (simp add: d del: mult_Suc_right)
    then show ?thesis using False by simp
  qed
qed

lemma kmer_digits_Suc:
  "kmer_digits x (Suc k) = unat (digit_at x k) # kmer_digits x k"
  by (simp add: kmer_digits_def map_upt_Suc label_digit_def digit_at_def del: upt_Suc)

lemma equal_digits_prefix:
  "equal_digits a b k =
     (if kmer_digits a k = kmer_digits b k then Suc k
      else length (longest_common_prefix (kmer_digits a k) (kmer_digits b k)))"
proof (induction k)
  case 0
  then show ?case by (simp add: kmer_digits_def)
next
  case (Suc k)
  then show ?case
    by (simp add: kmer_digits_Suc word_unat_eq_iff)
qed

lemma Key_lcp_char:
  assumes "k \<le> 16"
  shows "Key_lcp a b (of_nat k) =
     Some (of_nat (if kmer_digits (Key_label a) k = kmer_digits (Key_label b) k then Suc k
       else length (longest_common_prefix (kmer_digits (Key_label a) k) (kmer_digits (Key_label b) k))))"
proof -
  have "(3 :: size_type) * of_nat k = of_nat (3 * k)" by simp
  moreover have "3 * k < 2 ^ 64" using assms by simp
  ultimately have s: "unat ((3 :: size_type) * of_nat k) = 3 * k"
    by (simp only: unat_of_nat) simp
  have "k \<le> 20" using assms by simp
  from lcp_loop_equal_digits [OF this, of "Key_label a" "Key_label b" 0]
  show ?thesis
    using assms by (simp add: Key_lcp_def s CHAR_WIDTH_def equal_digits_prefix Let_def)
qed

text \<open>
  C4. \<^verbatim>\<open>Key::lcp(a, b, k)\<close> should be the length of the longest common prefix of the
  two comp sequences of length \<open>k\<close>. The key \<open>0x531002\<close> of \<^verbatim>\<open>"ACG"\<close> (with
  plain \<^verbatim>\<open>char\<close> signed or not) holds the comp sequence
  1, 2, 3, whose longest common prefix with itself has length 3; the source returns 4 for
  it, because the loop runs one more round after the mask has reached zero. (For labels
  whose comp sequences differ the result is the length of the common prefix: lemma
  \<open>Key_lcp_char\<close>.)
\<close>

theorem C4_lcp_equal_labels:
  "Key_encode True dna_alphabet ''ACG'' 0x10 0x02 = Some 0x531002
   \<and> Key_encode False dna_alphabet ''ACG'' 0x10 0x02 = Some 0x531002
   \<and> kmer_digits (Key_label 0x531002) 3 = [1, 2, 3]
   \<and> Key_lcp 0x531002 0x531002 3 = Some 4"
  by (simp add: dna_encode_ACG) code_simp

subsection \<open>Range extension\<close>

lemma unat_ucast_rank: "unat (ucast (x :: rank_type) :: size_type) = unat x"
proof -
  have "unat x < 2 ^ 32"
    using unsigned_less [of x, where 'a = nat] by simp
  then have "unat x < 18446744073709551616"
    by simp
  then show ?thesis
    by (simp add: unsigned_ucast_eq take_bit_nat_eq_self_iff)
qed

lemma ucast_rank_less: "(ucast (x :: rank_type) < (t :: size_type)) = (unat x < unat t)"
  by (simp add: word_less_nat_alt unat_ucast_rank)

lemma unat_rank_pred:
  fixes x :: rank_type
  assumes "0 < x"
  shows "unat (x - 1) = unat x - 1" and "0 < unat x"
  using assms by (simp_all add: unat_minus_one word_greater_zero_iff unat_gt_0)

lemma unat_rank_succ:
  fixes x :: rank_type
  assumes "Suc (unat x) < 2 ^ 32"
  shows "unat (x + 1) = Suc (unat x)"
proof -
  have "unat (x + 1) = (unat x + 1) mod 2 ^ 32"
    by (simp add: unat_word_ariths)
  then show ?thesis using assms by simp
qed

lemma extend_left_spec:
  assumes "unat first < length (kmer_lcp L)"
  shows "\<exists>f. extend_left L l first = Some f \<and> f \<le> first
           \<and> (\<forall>j. unat f < j \<and> j \<le> unat first \<longrightarrow> l \<le> kmer_lcp L ! j)
           \<and> (f = 0 \<or> kmer_lcp L ! unat f < l)"
  using assms
proof (induction L l first rule: extend_left.induct)
  case (1 L l first)
  show ?case
  proof (cases "0 < first")
    case False
    then have "first = 0" by (simp add: word_greater_zero_iff)
    then show ?thesis by (simp add: extend_left.simps)
  next
    case pos: True
    show ?thesis
    proof (cases "l \<le> kmer_lcp L ! unat first")
      case False
      then have "extend_left L l first = Some first"
        using pos "1.prems" by (simp add: extend_left.simps)
      then show ?thesis using False by auto
    next
      case True
      note p = unat_rank_pred [OF pos]
      have "unat (first - 1) < length (kmer_lcp L)"
        using "1.prems" p by simp
      from "1.IH" [OF pos _ True this] "1.prems"
      obtain f where f: "extend_left L l (first - 1) = Some f" "f \<le> first - 1"
        "\<forall>j. unat f < j \<and> j \<le> unat (first - 1) \<longrightarrow> l \<le> kmer_lcp L ! j"
        "f = 0 \<or> kmer_lcp L ! unat f < l"
        by auto
      have e: "extend_left L l first = Some f"
        using pos "1.prems" True f(1) by (subst extend_left.simps) simp
      have le: "f \<le> first"
        using f(2) p by (simp add: word_le_nat_alt)
      have "\<forall>j. unat f < j \<and> j \<le> unat first \<longrightarrow> l \<le> kmer_lcp L ! j"
      proof (intro allI impI)
        fix j assume j: "unat f < j \<and> j \<le> unat first"
        show "l \<le> kmer_lcp L ! j"
        proof (cases "j = unat first")
          case True
          then show ?thesis using \<open>l \<le> kmer_lcp L ! unat first\<close> by simp
        next
          case False
          then have "j \<le> unat (first - 1)" using j p by arith
          then show ?thesis using f(3) j by simp
        qed
      qed
      with e le f(4) show ?thesis by blast
    qed
  qed
qed

lemma extend_left_fixed:
  assumes "unat f < length (kmer_lcp L)" and "f = 0 \<or> kmer_lcp L ! unat f < l"
  shows "extend_left L l f = Some f"
  using assms by (subst extend_left.simps) (auto simp: word_greater_zero_iff)

lemma extend_right_spec:
  assumes len: "length (kmer_lcp L) = unat (total_keys L)"
    and small: "unat (total_keys L) < 2 ^ 32"
    and inside: "unat second < unat (total_keys L)"
  shows "\<exists>s. extend_right L l second = Some s \<and> second \<le> s \<and> unat s < unat (total_keys L)
           \<and> (\<forall>j. unat second < j \<and> j \<le> unat s \<longrightarrow> l \<le> kmer_lcp L ! j)
           \<and> (Suc (unat s) = unat (total_keys L) \<or> kmer_lcp L ! Suc (unat s) < l)"
  using inside
proof (induction "unat (total_keys L) - unat second" arbitrary: second)
  case 0
  then show ?case by simp
next
  case (Suc n)
  have nx: "unat (second + 1) = Suc (unat second)"
    using Suc.prems small by (intro unat_rank_succ) simp
  show ?case
  proof (cases "Suc (unat second) < unat (total_keys L)")
    case False
    then have "extend_right L l second = Some second"
      by (subst extend_right.simps) (simp add: ucast_rank_less nx)
    moreover have "Suc (unat second) = unat (total_keys L)"
      using False Suc.prems by simp
    ultimately show ?thesis using Suc.prems by auto
  next
    case more: True
    show ?thesis
    proof (cases "l \<le> kmer_lcp L ! Suc (unat second)")
      case False
      then have "extend_right L l second = Some second"
        using more by (subst extend_right.simps) (simp add: ucast_rank_less nx len)
      then show ?thesis using False Suc.prems by auto
    next
      case True
      have "n = unat (total_keys L) - unat (second + 1)"
        using Suc.hyps(2) nx by simp
      from Suc.hyps(1) [OF this] more nx
      obtain s where s: "extend_right L l (second + 1) = Some s" "second + 1 \<le> s"
        "unat s < unat (total_keys L)"
        "\<forall>j. unat (second + 1) < j \<and> j \<le> unat s \<longrightarrow> l \<le> kmer_lcp L ! j"
        "Suc (unat s) = unat (total_keys L) \<or> kmer_lcp L ! Suc (unat s) < l"
        by auto
      have e: "extend_right L l second = Some s"
        using more True s(1) by (subst extend_right.simps) (simp add: ucast_rank_less nx len)
      have le: "second \<le> s"
        using s(2) nx by (simp add: word_le_nat_alt)
      have "\<forall>j. unat second < j \<and> j \<le> unat s \<longrightarrow> l \<le> kmer_lcp L ! j"
      proof (intro allI impI)
        fix j assume j: "unat second < j \<and> j \<le> unat s"
        show "l \<le> kmer_lcp L ! j"
        proof (cases "j = Suc (unat second)")
          case True
          then show ?thesis using \<open>l \<le> kmer_lcp L ! Suc (unat second)\<close> by simp
        next
          case False
          then have "unat (second + 1) < j" using j nx by simp
          then show ?thesis using s(4) j by simp
        qed
      qed
      with e le s(3,5) show ?thesis by blast
    qed
  qed
qed

lemma extend_right_fixed:
  assumes "length (kmer_lcp L) = unat (total_keys L)" and "unat (total_keys L) < 2 ^ 32"
    and "unat s < unat (total_keys L)"
    and "Suc (unat s) = unat (total_keys L) \<or> kmer_lcp L ! Suc (unat s) < l"
  shows "extend_right L l s = Some s"
proof -
  have nx: "unat (s + 1) = Suc (unat s)"
    using assms(2,3) by (intro unat_rank_succ) simp
  show ?thesis
    using assms by (subst extend_right.simps) (auto simp: ucast_rank_less nx)
qed

lemma wide_read: "i < 2 ^ 32 \<Longrightarrow> kmer_lcp wide_lcp ! i = 0"
  unfolding wide_lcp_def by (simp only: LCP.simps nth_replicate)

lemma wide_total: "total_keys wide_lcp = 2 ^ 32" "length (kmer_lcp wide_lcp) = 2 ^ 32"
  unfolding wide_lcp_def by (simp_all only: LCP.simps length_replicate)

lemma wide_extend_right_Some:
  assumes "extend_right L lcp second = Some y"
  shows "L = wide_lcp \<and> lcp = 0 \<longrightarrow> False"
proof (rule extend_right.raw_induct
    [where P = "\<lambda>L lcp second y. L = wide_lcp \<and> lcp = 0 \<longrightarrow> False", OF _ assms])
  fix rec :: "LCP \<Rightarrow> size_type \<Rightarrow> rank_type \<Rightarrow> rank_type option"
  fix L lcp second y
  assume ih: "\<And>L lcp second y. rec L lcp second = Some y \<Longrightarrow> L = wide_lcp \<and> lcp = 0 \<longrightarrow> False"
  assume eq: "(if ucast (second + 1) < total_keys L
      then if length (kmer_lcp L) \<le> unat (second + 1) then None
           else if lcp \<le> kmer_lcp L ! unat (second + 1)
                then rec L lcp (second + 1) else Some second
      else Some second) = Some y"
  show "L = wide_lcp \<and> lcp = 0 \<longrightarrow> False"
  proof (intro impI, elim conjE)
    assume L: "L = wide_lcp" and l: "lcp = 0"
    have b: "unat (second + 1) < 2 ^ 32"
      using unsigned_less [of "second + 1", where 'a = nat] by simp
    then have "(ucast (second + 1) :: size_type) < total_keys wide_lcp"
      by (simp add: ucast_rank_less wide_total)
    moreover have "\<not> length (kmer_lcp wide_lcp) \<le> unat (second + 1)"
      using b by (simp add: wide_total)
    moreover have "kmer_lcp wide_lcp ! unat (second + 1) = 0"
      using b by (rule wide_read)
    ultimately have r: "rec wide_lcp 0 (second + 1) = Some y"
      using eq by (simp add: L l)
    from ih [OF r] show False by simp
  qed
qed

lemma wide_extend_right: "extend_right wide_lcp 0 second = None"
proof (cases "extend_right wide_lcp 0 second")
  case None
  then show ?thesis .
next
  case (Some y)
  from wide_extend_right_Some [OF this] show ?thesis by simp
qed

text \<open>
  C5, as stated. The claim is made for every LCP structure and every rank range inside it.
  With \<open>2^32\<close> keys the range \<open>(0, 2^32 - 1)\<close> is inside, and for the threshold 0 the
  second loop never stops: \<^verbatim>\<open>range.second + 1\<close> wraps to 0, which is below
  \<^verbatim>\<open>total_keys\<close>, and every entry is at least 0. No range is returned.
\<close>

theorem C5_wrap_counterexample:
  "length (kmer_lcp wide_lcp) = unat (total_keys wide_lcp)
   \<and> (0 :: rank_type) \<le> - 1 \<and> ucast (- 1 :: rank_type) < total_keys wide_lcp
   \<and> extendRange wide_lcp (0, - 1) 0 = None"
proof -
  have "extendRange wide_lcp (0, - 1) 0 = None"
    by (simp add: extendRange_def wide_extend_right extend_left.simps)
  moreover have "length (kmer_lcp wide_lcp) = unat (total_keys wide_lcp)"
    by (simp add: wide_total)
  moreover have "ucast (- 1 :: rank_type) < total_keys wide_lcp"
    using unsigned_less [of "- 1 :: rank_type", where 'a = nat]
    by (simp add: ucast_rank_less wide_total)
  ultimately show ?thesis by simp
qed

text \<open>
  C5, amended. For every LCP structure with \<^verbatim>\<open>kmer_lcp\<close> of length
  \<^verbatim>\<open>total_keys\<close> and fewer than \<open>2^32\<close> keys, every rank range \<open>(lo, hi)\<close> with
  \<open>lo \<le> hi < total_keys\<close> and every threshold \<open>l\<close>: \<^verbatim>\<open>extendRange\<close> returns a
  range \<open>(f, s)\<close>; extending \<open>(f, s)\<close> again returns \<open>(f, s)\<close>; \<open>f \<le> lo\<close>,
  \<open>hi \<le> s < total_keys\<close>; every entry of \<^verbatim>\<open>kmer_lcp\<close> crossed on the way
  (indices \<open>f + 1 .. lo\<close> and \<open>hi + 1 .. s\<close>) is at least \<open>l\<close>; and \<open>(f, s)\<close> is the
  largest such widening: any range around \<open>(lo, hi)\<close> inside the structure whose crossed
  entries are all at least \<open>l\<close> lies within \<open>(f, s)\<close>.
\<close>

theorem C5_extendRange:
  assumes len: "length (kmer_lcp L) = unat (total_keys L)"
    and small: "total_keys L < 2 ^ 32"
    and ord: "lo \<le> hi" and inside: "ucast hi < total_keys L"
  shows "\<exists>f s. extendRange L (lo, hi) l = Some (f, s)
           \<and> extendRange L (f, s) l = Some (f, s)
           \<and> Option.bind (extendRange L (lo, hi) l) (\<lambda>r. extendRange L r l)
               = extendRange L (lo, hi) l
           \<and> f \<le> lo \<and> hi \<le> s \<and> ucast s < total_keys L
           \<and> (\<forall>j. unat f < j \<and> j \<le> unat lo \<longrightarrow> l \<le> kmer_lcp L ! j)
           \<and> (\<forall>j. unat hi < j \<and> j \<le> unat s \<longrightarrow> l \<le> kmer_lcp L ! j)
           \<and> (\<forall>f' s'. f' \<le> lo \<and> hi \<le> s' \<and> ucast s' < total_keys L
                 \<and> (\<forall>j. unat f' < j \<and> j \<le> unat lo \<longrightarrow> l \<le> kmer_lcp L ! j)
                 \<and> (\<forall>j. unat hi < j \<and> j \<le> unat s' \<longrightarrow> l \<le> kmer_lcp L ! j)
                 \<longrightarrow> f \<le> f' \<and> s' \<le> s)"
proof -
  have sm: "unat (total_keys L) < 2 ^ 32"
    using small by (simp add: word_less_nat_alt)
  have hi: "unat hi < unat (total_keys L)"
    using inside by (simp add: ucast_rank_less)
  have lo: "unat lo < length (kmer_lcp L)"
    using ord hi len by (simp add: word_le_nat_alt)
  from extend_left_spec [OF lo, of l]
  obtain f where f: "extend_left L l lo = Some f" "f \<le> lo"
    "\<forall>j. unat f < j \<and> j \<le> unat lo \<longrightarrow> l \<le> kmer_lcp L ! j"
    "f = 0 \<or> kmer_lcp L ! unat f < l"
    by blast
  from extend_right_spec [OF len sm hi, of l]
  obtain s where s: "extend_right L l hi = Some s" "hi \<le> s" "unat s < unat (total_keys L)"
    "\<forall>j. unat hi < j \<and> j \<le> unat s \<longrightarrow> l \<le> kmer_lcp L ! j"
    "Suc (unat s) = unat (total_keys L) \<or> kmer_lcp L ! Suc (unat s) < l"
    by blast
  have r: "extendRange L (lo, hi) l = Some (f, s)"
    by (simp add: extendRange_def f(1) s(1))
  have "unat f < length (kmer_lcp L)"
    using f(2) lo by (simp add: word_le_nat_alt)
  then have "extend_left L l f = Some f"
    using f(4) by (rule extend_left_fixed)
  moreover have "extend_right L l s = Some s"
    using len sm s(3,5) by (rule extend_right_fixed)
  ultimately have i: "extendRange L (f, s) l = Some (f, s)"
    by (simp add: extendRange_def)
  have m: "\<forall>f' s'. f' \<le> lo \<and> hi \<le> s' \<and> ucast s' < total_keys L
                 \<and> (\<forall>j. unat f' < j \<and> j \<le> unat lo \<longrightarrow> l \<le> kmer_lcp L ! j)
                 \<and> (\<forall>j. unat hi < j \<and> j \<le> unat s' \<longrightarrow> l \<le> kmer_lcp L ! j)
                 \<longrightarrow> f \<le> f' \<and> s' \<le> s"
  proof (intro allI impI, elim conjE)
    fix f' s'
    assume a: "f' \<le> lo" "hi \<le> s'" "ucast s' < total_keys L"
      "\<forall>j. unat f' < j \<and> j \<le> unat lo \<longrightarrow> l \<le> kmer_lcp L ! j"
      "\<forall>j. unat hi < j \<and> j \<le> unat s' \<longrightarrow> l \<le> kmer_lcp L ! j"
    have "f \<le> f'"
    proof (rule ccontr)
      assume "\<not> f \<le> f'"
      then have lt: "unat f' < unat f" by (simp add: word_le_nat_alt)
      then have "f \<noteq> 0" by auto
      moreover have "l \<le> kmer_lcp L ! unat f"
        using a(4) lt f(2) by (simp add: word_le_nat_alt)
      ultimately show False using f(4) by auto
    qed
    moreover have "s' \<le> s"
    proof (rule ccontr)
      assume "\<not> s' \<le> s"
      then have lt: "Suc (unat s) \<le> unat s'" by (simp add: word_le_nat_alt)
      have "unat s' < unat (total_keys L)" using a(3) by (simp add: ucast_rank_less)
      then have "Suc (unat s) \<noteq> unat (total_keys L)" using lt by simp
      moreover have "l \<le> kmer_lcp L ! Suc (unat s)"
        using a(5) lt s(2) by (simp add: word_le_nat_alt)
      ultimately show False using s(5) by auto
    qed
    ultimately show "f \<le> f' \<and> s' \<le> s" ..
  qed
  have "ucast s < total_keys L"
    using s(3) by (simp add: ucast_rank_less)
  moreover have "Option.bind (extendRange L (lo, hi) l) (\<lambda>r. extendRange L r l)
      = extendRange L (lo, hi) l"
    by (simp add: r i)
  ultimately show ?thesis
    using r i f(2,3) s(2,4) m by blast
qed


theorem C5_extendRange_witness:
  "extendRange ex_lcp (3, 3) 2 = Some (2, 4) \<and> extendRange ex_lcp (2, 4) 2 = Some (2, 4)"
proof -
  have h1: "length (kmer_lcp ex_lcp) = unat (total_keys ex_lcp)"
    by (simp add: ex_lcp_def)
  have h2: "total_keys ex_lcp < 2 ^ 32"
    by (simp add: ex_lcp_def)
  have h3: "(3 :: rank_type) \<le> 3"
    by simp
  have h4: "ucast (3 :: rank_type) < total_keys ex_lcp"
    by (simp add: ex_lcp_def)
  from C5_extendRange [OF h1 h2 h3 h4, of 2]
  obtain f s where a: "extendRange ex_lcp (3, 3) 2 = Some (f, s)"
    and b: "extendRange ex_lcp (f, s) 2 = Some (f, s)"
    by blast
  have e: "extendRange ex_lcp (3, 3) 2 = Some (2, 4)"
    by code_simp
  from a e have "f = 2" and "s = 4"
    by simp_all
  with b e show ?thesis
    by simp
qed

subsection \<open>ValueIndex::find\<close>

lemma first_pos_le: "first_pos P xs \<le> length xs"
  by (induction xs) auto

lemma first_pos_absent: "(\<forall>x\<in>set xs. \<not> P x) \<Longrightarrow> first_pos P xs = length xs"
  by (induction xs) auto

lemma first_pos_present:
  "\<exists>x\<in>set xs. P x \<Longrightarrow>
     first_pos P xs < length xs \<and> P (xs ! first_pos P xs) \<and> (\<forall>j<first_pos P xs. \<not> P (xs ! j))"
proof (induction xs)
  case Nil
  then show ?case by simp
next
  case (Cons x xs)
  show ?case
  proof (cases "P x")
    case True
    then show ?thesis by simp
  next
    case False
    with Cons.prems have "\<exists>x\<in>set xs. P x" by simp
    from Cons.IH [OF this] False show ?thesis
      by (auto simp: nth_Cons split: nat.splits)
  qed
qed

lemma scan_input_length:
  "scan_input get prev xs = (buf, occ) \<Longrightarrow> length occ = length xs"
  by (induction xs arbitrary: prev buf occ) (auto simp: Let_def split: prod.splits if_splits)

lemma scan_input_spec:
  assumes "sorted (map get xs)"
    and "prev \<notin> get ` set xs \<or> (\<forall>x\<in>set xs. prev \<le> get x)"
  shows "set (fst (scan_input get prev xs)) = get ` set xs - {prev}
    \<and> sorted_wrt (<) (fst (scan_input get prev xs))
    \<and> (\<forall>v\<in>set (fst (scan_input get prev xs)).
          select_1 (snd (scan_input get prev xs))
            (Suc (length (filter (\<lambda>x. x < v) (fst (scan_input get prev xs)))))
          = Some (first_pos (\<lambda>x. get x = v) xs))"
  using assms
proof (induction xs arbitrary: prev)
  case Nil
  then show ?case by simp
next
  case (Cons x xs)
  let ?c = "get x"
  have sx: "sorted (map get xs)" and ge: "\<forall>y\<in>set xs. ?c \<le> get y"
    using Cons.prems(1) by simp_all
  show ?case
  proof (cases "?c = prev")
    case True
    obtain buf occ where r: "scan_input get prev xs = (buf, occ)"
      by (cases "scan_input get prev xs")
    have c: "prev \<notin> get ` set xs \<or> (\<forall>x\<in>set xs. prev \<le> get x)"
      using ge True by simp
    note IH = Cons.IH [OF sx c, unfolded r, simplified]
    have e: "scan_input get prev (x # xs) = (buf, False # occ)"
      using True r by simp
    have "\<forall>v\<in>set buf. v \<noteq> get x"
      using IH True by auto
    then show ?thesis
      unfolding e using IH True by auto
  next
    case False
    obtain buf occ where r: "scan_input get ?c xs = (buf, occ)"
      by (cases "scan_input get ?c xs")
    have c: "?c \<notin> get ` set xs \<or> (\<forall>y\<in>set xs. ?c \<le> get y)"
      using ge by simp
    note IH = Cons.IH [OF sx c, unfolded r, simplified]
    have e: "scan_input get prev (x # xs) = (?c # buf, True # occ)"
      using False r by simp
    have np: "prev \<notin> get ` set (x # xs)"
    proof
      assume m: "prev \<in> get ` set (x # xs)"
      with Cons.prems(2) have "\<forall>y\<in>set (x # xs). prev \<le> get y" by blast
      then have "prev \<le> ?c" by simp
      with False have "prev < ?c" by simp
      with ge have "\<forall>y\<in>set xs. prev < get y" by auto
      with m False show False by auto
    qed
    have gt: "\<forall>b\<in>set buf. ?c < b"
      using IH ge by auto
    have s1: "set (?c # buf) = get ` set (x # xs) - {prev}"
      using IH np by auto
    have s2: "sorted_wrt (<) (?c # buf)"
      using IH gt by simp
    have s3: "\<forall>v\<in>set (?c # buf).
          select_1 (True # occ) (Suc (length (filter (\<lambda>x. x < v) (?c # buf))))
          = Some (first_pos (\<lambda>x. get x = v) (x # xs))"
    proof
      fix v assume v: "v \<in> set (?c # buf)"
      show "select_1 (True # occ) (Suc (length (filter (\<lambda>x. x < v) (?c # buf))))
          = Some (first_pos (\<lambda>x. get x = v) (x # xs))"
      proof (cases "v = ?c")
        case True
        have "filter (\<lambda>x. x < ?c) buf = []"
          using gt by (auto simp: filter_empty_conv)
        then show ?thesis using True by simp
      next
        case nc: False
        then have vb: "v \<in> set buf" using v by simp
        then have "?c < v" using gt by simp
        then show ?thesis using nc vb IH by auto
      qed
    qed
    show ?thesis
      unfolding e using s1 s2 s3 by simp
  qed
qed

lemma word_less_succ:
  fixes x :: size_type
  assumes "x \<noteq> - 1"
  shows "x < x + 1"
  using assms by (metis inc_less_eq_triv_imp linorder_less_linear word_le_less_eq)

lemma sorted_le_last:
  fixes xs :: "size_type list"
  shows "sorted xs \<Longrightarrow> v \<in> set xs \<Longrightarrow> v \<le> last xs"
  by (induction xs) auto

text \<open>
  C8, as stated. The claim is made for every input whose values form increasing runs. The
  constructor takes \<^verbatim>\<open>~(size_type)0\<close> for "no previous value": an input whose only
  value is \<open>2^64 - 1\<close> gets no mark, and \<^verbatim>\<open>find\<close> of that value returns the length 1
  of the input, although the value occurs at index 0.
\<close>

theorem C8_sentinel_counterexample:
  "sorted (map id [- 1 :: size_type])
   \<and> ValueIndex_init id [- 1 :: size_type]
       = Inr \<lparr> values_vec = sd_empty, first_occ = [False] \<rparr>
   \<and> ValueIndex_find \<lparr> values_vec = sd_empty, first_occ = [False] \<rparr> (- 1) = Some 1
   \<and> id ([- 1 :: size_type] ! 0) = - 1"
  by (simp add: ValueIndex_init_def ValueIndex_find_def sd_empty_def)

text \<open>
  C8, amended. For every input vector in which equal getter-values occupy contiguous runs
  with increasing run values, and in which no getter-value is \<open>2^64 - 1\<close>, the index is
  built without error, \<^verbatim>\<open>find(v)\<close> returns the smallest index \<open>i\<close> with
  \<^verbatim>\<open>Getter::get(input[i]) == v\<close> when \<open>v\<close> occurs in the input, and it returns the
  length of the input when \<open>v\<close> does not occur, in particular when \<open>v\<close> is at or beyond
  the size of the marked value universe.
\<close>

theorem C8_ValueIndex_find:
  assumes srt: "sorted (map get input)" and ns: "\<forall>x\<in>set input. get x \<noteq> - 1"
  shows "\<exists>vi. ValueIndex_init get input = Inr vi
    \<and> (\<forall>v. if v \<in> get ` set input
           then (\<exists>i. ValueIndex_find vi v = Some i \<and> i < length input \<and> get (input ! i) = v
                  \<and> (\<forall>j<i. get (input ! j) \<noteq> v))
           else ValueIndex_find vi v = Some (length input))
    \<and> (\<forall>v. sd_size (values_vec vi) \<le> v \<longrightarrow> ValueIndex_find vi v = Some (length input))"
proof -
  obtain buf occ where r: "scan_input get (- 1) input = (buf, occ)"
    by (cases "scan_input get (- 1) input")
  have c: "- 1 \<notin> get ` set input \<or> (\<forall>x\<in>set input. - 1 \<le> get x)"
    using ns by auto
  note S = scan_input_spec [OF srt c, unfolded r, simplified]
  have sb: "set buf = get ` set input"
    using S ns by auto
  have st: "sorted buf"
    using S by (simp add: strict_sorted_imp_sorted)
  have lo: "length occ = length input"
    using r by (rule scan_input_length)
  define sd where "sd = (if buf = [] then sd_empty else \<lparr> sd_size = last buf + 1, sd_ones = buf \<rparr>)"
  define vi where "vi = \<lparr> values_vec = sd, first_occ = occ \<rparr>"
  have init: "ValueIndex_init get input = Inr vi"
    using st by (simp add: ValueIndex_init_def r sd_build_def vi_def sd_def)
  have ones: "sd_ones sd = buf"
    by (simp add: sd_def sd_empty_def)
  have inside: "v < sd_size sd" if "v \<in> set buf" for v
  proof -
    from that have ne: "buf \<noteq> []" by auto
    have "last buf \<in> set buf" using ne by simp
    then have "last buf \<noteq> - 1" using sb ns by auto
    then have "last buf < last buf + 1" by (rule word_less_succ)
    moreover have "v \<le> last buf"
      using st that by (rule sorted_le_last)
    ultimately show ?thesis using ne by (simp add: sd_def)
  qed
  have present: "ValueIndex_find vi v = Some (first_pos (\<lambda>x. get x = v) input)"
    if "v \<in> get ` set input" for v
  proof -
    from that have vb: "v \<in> set buf" using sb by simp
    then have "\<not> sd_size sd \<le> v" using inside by (simp add: not_le)
    then show ?thesis
      using vb S by (simp add: ValueIndex_find_def vi_def sd_access_def rank_1_def ones)
  qed
  have absent: "ValueIndex_find vi v = Some (length input)" if "v \<notin> get ` set input" for v
    using that sb by (simp add: ValueIndex_find_def vi_def sd_access_def ones lo)
  have outside: "ValueIndex_find vi v = Some (length input)" if "sd_size (values_vec vi) \<le> v" for v
    using that by (simp add: ValueIndex_find_def lo vi_def)
  have "\<forall>v. if v \<in> get ` set input
           then (\<exists>i. ValueIndex_find vi v = Some i \<and> i < length input \<and> get (input ! i) = v
                  \<and> (\<forall>j<i. get (input ! j) \<noteq> v))
           else ValueIndex_find vi v = Some (length input)"
  proof
    fix v
    show "if v \<in> get ` set input
           then (\<exists>i. ValueIndex_find vi v = Some i \<and> i < length input \<and> get (input ! i) = v
                  \<and> (\<forall>j<i. get (input ! j) \<noteq> v))
           else ValueIndex_find vi v = Some (length input)"
    proof (cases "v \<in> get ` set input")
      case True
      then have "\<exists>x\<in>set input. get x = v" by auto
      from first_pos_present [of input "\<lambda>x. get x = v", OF this] present [OF True] True
      show ?thesis by auto
    next
      case False
      then show ?thesis using absent by simp
    qed
  qed
  with init outside show ?thesis by blast
qed

theorem C8_ValueIndex_find_witness:
  "\<exists>vi. ValueIndex_init id [3, 3, 5, 9, 9, 9 :: size_type] = Inr vi
     \<and> ValueIndex_find vi 4 = Some 6
     \<and> (\<exists>i. ValueIndex_find vi 9 = Some i \<and> i < 6 \<and> [3, 3, 5, 9, 9, 9 :: size_type] ! i = 9)"
proof -
  let ?input = "[3, 3, 5, 9, 9, 9 :: size_type]"
  have h1: "sorted (map id ?input)"
    by simp
  have h2: "\<forall>x\<in>set ?input. id x \<noteq> - 1"
    by simp
  from C8_ValueIndex_find [of id ?input, OF h1 h2]
  obtain vi where i: "ValueIndex_init id ?input = Inr vi"
    and f: "\<forall>v. if v \<in> id ` set ?input
           then (\<exists>i. ValueIndex_find vi v = Some i \<and> i < length ?input \<and> id (?input ! i) = v
                  \<and> (\<forall>j<i. id (?input ! j) \<noteq> v))
           else ValueIndex_find vi v = Some (length ?input)"
    by blast
  have "(4 :: size_type) \<notin> id ` set ?input"
    by simp
  with f have a: "ValueIndex_find vi 4 = Some (length ?input)"
    by (metis (no_types, lifting))
  have "(9 :: size_type) \<in> id ` set ?input"
    by simp
  with f have "\<exists>i. ValueIndex_find vi 9 = Some i \<and> i < length ?input \<and> id (?input ! i) = 9
                  \<and> (\<forall>j<i. id (?input ! j) \<noteq> 9)"
    by (metis (no_types, lifting))
  then have b: "\<exists>i. ValueIndex_find vi 9 = Some i \<and> i < 6 \<and> ?input ! i = 9"
    by auto
  from i a b show ?thesis
    by auto
qed

subsection \<open>The heap\<close>

lemma parent_pos: "0 < j \<Longrightarrow> parent j = (j - 1) div 2"
  by (simp add: parent_def)

lemma parent_less: "0 < j \<Longrightarrow> parent j < j"
  by (simp add: parent_def)

lemma parent_eq_iff: "0 < j \<Longrightarrow> (parent j = k) = (j = left k \<or> j = right k)"
  by (simp add: parent_def left_def right_def) arith

lemma length_swap_data [simp]: "length (swap_data d i j) = length d"
  by (simp add: swap_data_def)

lemma swap_data_nth:
  "i < length d \<Longrightarrow> j < length d \<Longrightarrow>
     swap_data d i j ! m = (if m = j then d ! i else if m = i then d ! j else d ! m)"
  by (simp add: swap_data_def nth_list_update)

lemma mset_swap_data: "i < length d \<Longrightarrow> j < length d \<Longrightarrow> mset (swap_data d i j) = mset d"
  by (simp add: swap_data_def mset_swap)

lemma next_index_range:
  assumes "left i < length d" and "next_index lt d i \<noteq> i"
  shows "next_index lt d i < length d" and "i < next_index lt d i"
    and "0 < next_index lt d i" and "parent (next_index lt d i) = i"
proof -
  have c: "next_index lt d i = left i \<or> (next_index lt d i = right i \<and> right i < length d)"
    using assms(2) by (auto simp: next_index_def smaller_def Let_def split: if_splits)
  then show "next_index lt d i < length d" using assms(1) by auto
  show "i < next_index lt d i" using c by (auto simp: left_def right_def)
  then show p: "0 < next_index lt d i" by simp
  show "parent (next_index lt d i) = i"
    using c by (auto simp: parent_eq_iff [OF p])
qed

lemma next_index_stays:
  assumes "left i < length d" and "next_index lt d i = i"
    and "0 < c" and "c < length d" and "parent c = i"
  shows "\<not> lt (d ! c) (d ! i)"
proof -
  have "c = left i \<or> c = right i"
    using assms(3,5) by (simp add: parent_eq_iff)
  moreover have "i \<noteq> left i" "i \<noteq> right i"
    by (simp_all add: left_def right_def)
  ultimately show ?thesis
    using assms(1,2,4)
    by (auto simp: next_index_def smaller_def Let_def split: if_splits)
qed

lemma next_index_least:
  assumes ord: "strict_weak_order lt"
    and "left i < length d" and "next_index lt d i \<noteq> i"
  shows "lt (d ! next_index lt d i) (d ! i)"
    and "\<And>c. 0 < c \<Longrightarrow> c < length d \<Longrightarrow> parent c = i \<Longrightarrow> \<not> lt (d ! c) (d ! next_index lt d i)"
proof -
  have irr: "\<And>x. \<not> lt x x" and tr: "\<And>x y z. lt x y \<Longrightarrow> lt y z \<Longrightarrow> lt x z"
    using ord unfolding strict_weak_order_def by blast+
  have asym: "\<And>x y. lt x y \<Longrightarrow> \<not> lt y x"
    using irr tr by blast
  let ?l = "left i" and ?r = "right i"
  let ?n0 = "smaller lt d i ?l"
  have ne: "i \<noteq> ?l" "i \<noteq> ?r" "?l \<noteq> ?r"
    by (simp_all add: left_def right_def)
  have n0: "?n0 = (if lt (d ! ?l) (d ! i) then ?l else i)"
    by (simp add: smaller_def)
  have nx: "next_index lt d i = (if ?r < length d \<and> lt (d ! ?r) (d ! ?n0) then ?r else ?n0)"
    by (simp add: next_index_def smaller_def Let_def)
  have n0_le: "?n0 = i \<or> lt (d ! ?n0) (d ! i)"
    by (simp add: n0)
  show top: "lt (d ! next_index lt d i) (d ! i)"
  proof (cases "?r < length d \<and> lt (d ! ?r) (d ! ?n0)")
    case True
    then have "next_index lt d i = ?r" unfolding nx by (rule if_P)
    moreover have "lt (d ! ?r) (d ! i)"
      using True n0_le tr by metis
    ultimately show ?thesis by simp
  next
    case False
    then have "next_index lt d i = ?n0" unfolding nx by (rule if_not_P)
    then show ?thesis using assms(3) n0_le by metis
  qed
  fix c assume c: "0 < c" "c < length d" "parent c = i"
  then have cc: "c = ?l \<or> c = ?r"
    by (simp add: parent_eq_iff)
  have l_ok: "\<not> lt (d ! ?l) (d ! ?n0)"
    using irr asym by (auto simp: n0)
  show "\<not> lt (d ! c) (d ! next_index lt d i)"
  proof (cases "?r < length d \<and> lt (d ! ?r) (d ! ?n0)")
    case True
    then have e: "next_index lt d i = ?r" unfolding nx by (rule if_P)
    have "\<not> lt (d ! ?l) (d ! ?r)"
      using True l_ok tr by blast
    then show ?thesis using cc e irr by auto
  next
    case False
    then have e: "next_index lt d i = ?n0" unfolding nx by (rule if_not_P)
    have "\<not> lt (d ! ?r) (d ! ?n0)" if "c = ?r"
      using False c(2) that by simp
    then show ?thesis using cc e l_ok by auto
  qed
qed

lemma length_down [simp]: "length (down lt d i) = length d"
proof (induction lt d i rule: down.induct)
  case (1 lt d i)
  then show ?case
    by (subst down.simps) auto
qed

lemma mset_down: "mset (down lt d i) = mset d"
proof (induction lt d i rule: down.induct)
  case (1 lt d i)
  show ?case
  proof (cases "left i < length d \<and> next_index lt d i \<noteq> i")
    case True
    then have l: "left i < length d" and n: "next_index lt d i \<noteq> i" by simp_all
    note r = next_index_range [OF l n]
    have "i < length d" using r(1,2) by simp
    then have "mset (swap_data d i (next_index lt d i)) = mset d"
      using r(1) by (simp add: mset_swap_data)
    then show ?thesis
      using "1.IH" [OF l n] l n by (subst down.simps) simp
  next
    case False
    then show ?thesis by (subst down.simps) auto
  qed
qed


lemma down_unchanged:
  assumes "\<not> (left k < length d \<and> next_index lt d k \<noteq> k)"
  shows "down lt d k = d"
  using assms by (subst down.simps) auto

lemma down_step:
  assumes "left k < length d" and "next_index lt d k \<noteq> k"
  shows "down lt d k = down lt (swap_data d k (next_index lt d k)) (next_index lt d k)"
  using assms by (subst down.simps) simp

lemma heap_except_step:
  assumes ord: "strict_weak_order lt"
    and he: "heap_except lt d lo k"
    and l: "left k < length d" and n: "next_index lt d k \<noteq> k"
  shows "heap_except lt (swap_data d k (next_index lt d k)) lo (next_index lt d k)"
proof -
  let ?c = "next_index lt d k"
  let ?d = "swap_data d k ?c"
  have irr: "\<And>x. \<not> lt x x" and tr: "\<And>x y z. lt x y \<Longrightarrow> lt y z \<Longrightarrow> lt x z"
    using ord unfolding strict_weak_order_def by blast+
  note r = next_index_range [OF l n]
  note m = next_index_least [OF ord l n]
  have kn: "k < length d" using r(1,2) by simp
  note nth = swap_data_nth [OF kn r(1)]
  have h1: "\<And>j. 0 < j \<Longrightarrow> j < length d \<Longrightarrow> lo \<le> parent j \<Longrightarrow> parent j \<noteq> k
      \<Longrightarrow> \<not> lt (d ! j) (d ! parent j)"
    using he unfolding heap_except_def by blast
  have h2: "\<And>c. 0 < k \<Longrightarrow> lo \<le> parent k \<Longrightarrow> 0 < c \<Longrightarrow> c < length d \<Longrightarrow> parent c = k
      \<Longrightarrow> \<not> lt (d ! c) (d ! parent k)"
    using he unfolding heap_except_def by blast
  have p1: "\<not> lt (?d ! j) (?d ! parent j)"
    if j: "0 < j" "j < length ?d" "lo \<le> parent j" "parent j \<noteq> ?c" for j
  proof (cases "parent j = k")
    case True
    then have jk: "j \<noteq> k" using parent_less [OF j(1)] by auto
    show ?thesis
    proof (cases "j = ?c")
      case True
      have "\<not> lt (d ! k) (d ! ?c)"
        using m(1) irr tr by blast
      then show ?thesis using True \<open>parent j = k\<close> n by (simp add: nth)
    next
      case False
      have "\<not> lt (d ! j) (d ! ?c)"
        using m(2) [of j] j(1,2) True by simp
      then show ?thesis using False jk True n by (simp add: nth)
    qed
  next
    case False
    have jc: "j \<noteq> ?c" using False r(4) by auto
    show ?thesis
    proof (cases "j = k")
      case True
      have "\<not> lt (d ! ?c) (d ! parent k)"
        using h2 [of ?c] j(1,3) True r(1,3,4) by simp
      then show ?thesis using True False j(4) n by (simp add: nth)
    next
      case nk: False
      have "\<not> lt (d ! j) (d ! parent j)"
        using h1 [of j] j False by simp
      then show ?thesis using nk jc False j(4) by (simp add: nth)
    qed
  qed
  have p2: "\<not> lt (?d ! c) (?d ! parent ?c)"
    if c: "0 < c" "c < length ?d" "parent c = ?c" and "lo \<le> parent ?c" for c
  proof -
    have gt: "?c < c" using parent_less [OF c(1)] c(3) by simp
    then have ne: "c \<noteq> k" "c \<noteq> ?c" using r(2) by simp_all
    have "lo \<le> parent c" using that(4) r(4) r(2) c(3) by simp
    then have "\<not> lt (d ! c) (d ! ?c)"
      using h1 [of c] c n by simp
    then show ?thesis using ne n by (simp add: nth r(4))
  qed
  show ?thesis
    unfolding heap_except_def using p1 p2 by blast
qed

lemma down_heap:
  "strict_weak_order lt \<Longrightarrow> heap_except lt d lo k \<Longrightarrow> heap_from lt (down lt d k) lo"
proof (induction lt d k rule: down.induct)
  case (1 lt d k)
  have h1: "\<And>j. 0 < j \<Longrightarrow> j < length d \<Longrightarrow> lo \<le> parent j \<Longrightarrow> parent j \<noteq> k
      \<Longrightarrow> \<not> lt (d ! j) (d ! parent j)"
    using "1.prems"(2) unfolding heap_except_def by blast
  show ?case
  proof (cases "left k < length d")
    case False
    have "\<not> lt (d ! j) (d ! parent j)" if j: "0 < j" "j < length d" "lo \<le> parent j" for j
    proof -
      have "parent j \<noteq> k"
      proof
        assume "parent j = k"
        then have "j = left k \<or> j = right k" using j(1) by (simp add: parent_eq_iff)
        then show False using False j(2) by (auto simp: left_def right_def)
      qed
      then show ?thesis using h1 j by simp
    qed
    then show ?thesis
      using False by (simp add: down_unchanged heap_from_def)
  next
    case l: True
    show ?thesis
    proof (cases "next_index lt d k = k")
      case True
      have "\<not> lt (d ! j) (d ! parent j)" if j: "0 < j" "j < length d" "lo \<le> parent j" for j
      proof (cases "parent j = k")
        case pk: True
        from next_index_stays [OF l True j(1,2) pk] show ?thesis by (simp add: pk)
      next
        case False
        then show ?thesis using h1 j by simp
      qed
      then show ?thesis
        using True by (simp add: down_unchanged heap_from_def)
    next
      case n: False
      have "heap_except lt (swap_data d k (next_index lt d k)) lo (next_index lt d k)"
        using "1.prems" l n by (rule heap_except_step)
      from "1.IH" [OF l n "1.prems"(1) this] show ?thesis
        by (simp add: down_step [OF l n])
    qed
  qed
qed

lemma heapify_loop_heap:
  "strict_weak_order lt \<Longrightarrow> heap_from lt d (Suc i) \<Longrightarrow> heap_from lt (heapify_loop lt d i) 0"
proof (induction i arbitrary: d)
  case 0
  have "heap_except lt d 0 0"
    using "0.prems"(2) unfolding heap_except_def heap_from_def
    by (metis Suc_leI neq0_conv less_irrefl)
  from down_heap [OF "0.prems"(1) this] show ?case by simp
next
  case (Suc i)
  have "heap_except lt d (Suc i) (Suc i)"
    unfolding heap_except_def
  proof (intro conjI allI impI)
    fix j assume "0 < j \<and> j < length d \<and> Suc i \<le> parent j \<and> parent j \<noteq> Suc i"
    then show "\<not> lt (d ! j) (d ! parent j)"
      using Suc.prems(2) unfolding heap_from_def by (simp add: Suc_le_eq)
  next
    fix c assume "0 < Suc i \<and> Suc i \<le> parent (Suc i)"
    then have False using parent_less [of "Suc i"] by simp
    then show "\<not> lt (d ! c) (d ! parent (Suc i))" ..
  qed
  from down_heap [OF Suc.prems(1) this]
  have "heap_from lt (down lt d (Suc i)) (Suc i)" .
  from Suc.IH [OF Suc.prems(1) this] show ?case by simp
qed

lemma heapify_is_heap:
  assumes "strict_weak_order lt"
  shows "is_heap lt (heapify lt d)"
proof (cases "length d \<le> 1")
  case True
  then show ?thesis by (auto simp: heapify_def is_heap_def)
next
  case False
  have "heap_from lt d (Suc (parent (length d - 1)))"
    unfolding heap_from_def
  proof (intro allI impI)
    fix j assume j: "0 < j \<and> j < length d \<and> Suc (parent (length d - 1)) \<le> parent j"
    then have pj: "parent j = (j - 1) div 2"
      by (simp add: parent_pos)
    have pn: "parent (length d - 1) = (length d - 1 - 1) div 2"
      using False by (simp add: parent_pos)
    have "j - 1 \<le> length d - 1 - 1"
      using j by arith
    then have "(j - 1) div 2 \<le> (length d - 1 - 1) div 2"
      by (rule div_le_mono)
    then have "parent j \<le> parent (length d - 1)"
      by (simp only: pj pn)
    with j show "\<not> lt (d ! j) (d ! parent j)" by simp
  qed
  from heapify_loop_heap [OF assms this] show ?thesis
    using False by (simp add: heapify_def is_heap_def heap_from_def)
qed

lemma mset_heapify_loop: "mset (heapify_loop lt d i) = mset d"
  by (induction i arbitrary: d) (simp_all add: mset_down)

lemma mset_heapify: "mset (heapify lt d) = mset d"
  by (simp add: heapify_def mset_heapify_loop)

lemma heap_root_least:
  assumes ord: "strict_weak_order lt" and h: "is_heap lt d"
  shows "j < length d \<Longrightarrow> \<not> lt (d ! j) (d ! 0)"
proof (induction j rule: less_induct)
  case (less j)
  have irr: "\<And>x. \<not> lt x x"
    and nt: "\<And>x y z. \<not> lt x y \<Longrightarrow> \<not> lt y z \<Longrightarrow> \<not> lt x z"
    using ord unfolding strict_weak_order_def by blast+
  show ?case
  proof (cases "j = 0")
    case True
    then show ?thesis using irr by simp
  next
    case False
    then have p: "parent j < j" by (simp add: parent_less)
    have "\<not> lt (d ! j) (d ! parent j)"
      using h False less.prems unfolding is_heap_def by simp
    moreover have "\<not> lt (d ! parent j) (d ! 0)"
      using less.IH [OF p] p less.prems by simp
    ultimately show ?thesis by (rule nt)
  qed
qed

lemma is_heap_after_pop:
  assumes ord: "strict_weak_order lt" and h: "is_heap lt d"
  shows "is_heap lt (down lt ((butlast d)[0 := last d]) 0)"
proof -
  let ?d0 = "(butlast d)[0 := last d]"
  have "heap_except lt ?d0 0 0"
    unfolding heap_except_def
  proof (intro conjI allI impI)
    fix j assume j: "0 < j \<and> j < length ?d0 \<and> 0 \<le> parent j \<and> parent j \<noteq> 0"
    then have jl: "j < length d - 1" by simp
    have pl: "parent j < j" using j by (simp add: parent_less)
    have "?d0 ! j = d ! j" using j jl by (simp add: nth_butlast)
    moreover have "?d0 ! parent j = d ! parent j" using j jl pl by (simp add: nth_butlast)
    moreover have "j < length d" using jl by simp
    then have "\<not> lt (d ! j) (d ! parent j)"
      using h j unfolding is_heap_def by simp
    ultimately show "\<not> lt (?d0 ! j) (?d0 ! parent j)" by simp
  next
    fix c assume "0 < (0 :: nat) \<and> 0 \<le> parent 0"
    then show "\<not> lt (?d0 ! c) (?d0 ! parent 0)" by simp
  qed
  from down_heap [OF ord this] show ?thesis
    by (simp add: is_heap_def heap_from_def)
qed

lemma set_after_pop: "set (down lt ((butlast d)[0 := last d]) 0) \<subseteq> set d"
proof (cases "d = []")
  case True
  then show ?thesis by (simp add: down_unchanged left_def)
next
  case False
  have "set (down lt ((butlast d)[0 := last d]) 0) = set ((butlast d)[0 := last d])"
    using mset_down [of lt "(butlast d)[0 := last d]" 0] by (metis set_mset_mset)
  also have "\<dots> \<subseteq> insert (last d) (set (butlast d))"
    by (rule set_update_subset_insert)
  also have "\<dots> \<subseteq> set d"
    using False by (auto dest: in_set_butlastD)
  finally show ?thesis .
qed

lemma drain_steps_sorted:
  "strict_weak_order lt \<Longrightarrow> is_heap lt d \<Longrightarrow>
     sorted_wrt (\<lambda>x y. \<not> lt y x) (drain_steps lt d n) \<and> set (drain_steps lt d n) \<subseteq> set d"
proof (induction n arbitrary: d)
  case 0
  then show ?case by simp
next
  case (Suc n)
  show ?case
  proof (cases "d = []")
    case True
    then show ?thesis by simp
  next
    case False
    let ?d' = "down lt ((butlast d)[0 := last d]) 0"
    have h': "is_heap lt ?d'"
      using Suc.prems by (rule is_heap_after_pop)
    from Suc.IH [OF Suc.prems(1) h']
    have s: "sorted_wrt (\<lambda>x y. \<not> lt y x) (drain_steps lt ?d' n)"
      and sub: "set (drain_steps lt ?d' n) \<subseteq> set ?d'" by simp_all
    have sub2: "set (drain_steps lt ?d' n) \<subseteq> set d"
      using sub set_after_pop [of lt d] by blast
    have "\<forall>y\<in>set (drain_steps lt ?d' n). \<not> lt y (d ! 0)"
    proof
      fix y assume "y \<in> set (drain_steps lt ?d' n)"
      then have "y \<in> set d" using sub2 by blast
      then obtain j where "j < length d" "d ! j = y" by (auto simp: in_set_conv_nth)
      with heap_root_least [OF Suc.prems, of j] show "\<not> lt y (d ! 0)" by simp
    qed
    moreover have "d ! 0 \<in> set d" using False by simp
    ultimately show ?thesis
      using False s sub2 by simp
  qed
qed

lemma mset_drain_steps: "length d \<le> n \<Longrightarrow> mset (drain_steps lt d n) = mset d"
proof (induction n arbitrary: d)
  case 0
  then show ?case by simp
next
  case (Suc n)
  show ?case
  proof (cases d)
    case Nil
    then show ?thesis by simp
  next
    case (Cons x ys)
    let ?d0 = "(butlast d)[0 := last d]"
    have "length (down lt ?d0 0) \<le> n" using Suc.prems by simp
    from Suc.IH [OF this] have r: "mset (drain_steps lt (down lt ?d0 0) n) = mset ?d0"
      by (simp add: mset_down)
    have "add_mset x (mset ?d0) = mset d"
    proof (cases "ys = []")
      case True
      then show ?thesis using Cons by simp
    next
      case False
      then have "?d0 = last ys # butlast ys" using Cons by simp
      moreover have "mset (last ys # butlast ys) = mset ys"
        using False by (metis append_butlast_last_id mset.simps(2) mset_append union_mset_add_mset_right add.right_neutral mset.simps(1) add_mset_add_single)
      ultimately show ?thesis using Cons by simp
    qed
    then show ?thesis using Cons r by simp
  qed
qed

lemma down_tie:
  assumes "left i < length d \<longrightarrow> \<not> lt (d ! left i) (d ! i)"
    and "right i < length d \<longrightarrow> \<not> lt (d ! right i) (d ! i)"
  shows "down lt d i = d"
proof (rule down_unchanged)
  have "left i < length d \<Longrightarrow> next_index lt d i = i"
    using assms by (simp add: next_index_def smaller_def Let_def)
  then show "\<not> (left i < length d \<and> next_index lt d i \<noteq> i)" by blast
qed

text \<open>
  C9. For every element vector and every strict less-than, the vector that
  \<^verbatim>\<open>heapify()\<close> leaves is a permutation of the given one with the binary min-heap
  property: no element is strictly less than its parent, hence none is less than the root.
  Extracting the root again and again yields all elements in nondecreasing order.
  \<^verbatim>\<open>smaller(i, j)\<close> returns \<open>j\<close> (for \<open>j \<noteq> i\<close>) only when \<^verbatim>\<open>data[j] < data[i]\<close>, and
  \<open>i\<close> whenever \<^verbatim>\<open>data[j] < data[i]\<close> fails; \<^verbatim>\<open>down\<close> swaps an element only with a
  strictly smaller child, and leaves the vector as it is when no child is strictly smaller.
\<close>

theorem C9_heapify:
  assumes "strict_weak_order lt"
  shows "is_heap lt (heapify lt d)
    \<and> mset (heapify lt d) = mset d
    \<and> (\<forall>j<length d. \<not> lt (heapify lt d ! j) (heapify lt d ! 0))
    \<and> sorted_wrt (\<lambda>x y. \<not> lt y x) (drain lt (heapify lt d))
    \<and> mset (drain lt (heapify lt d)) = mset d
    \<and> (smaller lt q i j = j \<and> j \<noteq> i \<longrightarrow> lt (q ! j) (q ! i))
    \<and> (\<not> lt (q ! j) (q ! i) \<longrightarrow> smaller lt q i j = i)
    \<and> (left i < length q \<and> next_index lt q i \<noteq> i \<longrightarrow> lt (q ! next_index lt q i) (q ! i))
    \<and> ((left i < length q \<longrightarrow> \<not> lt (q ! left i) (q ! i))
        \<and> (right i < length q \<longrightarrow> \<not> lt (q ! right i) (q ! i)) \<longrightarrow> down lt q i = q)"
proof -
  note h = heapify_is_heap [OF assms, of d]
  have len: "length (heapify lt d) = length d"
    using mset_heapify [of lt d] by (metis size_mset)
  have a: "\<forall>j<length d. \<not> lt (heapify lt d ! j) (heapify lt d ! 0)"
    using heap_root_least [OF assms h] len by simp
  have b: "sorted_wrt (\<lambda>x y. \<not> lt y x) (drain lt (heapify lt d))"
    using drain_steps_sorted [OF assms h] by (simp add: drain_def)
  have c: "mset (drain lt (heapify lt d)) = mset d"
    by (simp add: drain_def mset_drain_steps mset_heapify)
  have e: "smaller lt q i j = j \<and> j \<noteq> i \<longrightarrow> lt (q ! j) (q ! i)"
    by (auto simp: smaller_def split: if_splits)
  have f: "\<not> lt (q ! j) (q ! i) \<longrightarrow> smaller lt q i j = i"
    by (simp add: smaller_def)
  have g: "(left i < length q \<longrightarrow> \<not> lt (q ! left i) (q ! i))
        \<and> (right i < length q \<longrightarrow> \<not> lt (q ! right i) (q ! i)) \<longrightarrow> down lt q i = q"
    using down_tie [of i q lt] by blast
  have s: "left i < length q \<and> next_index lt q i \<noteq> i \<longrightarrow> lt (q ! next_index lt q i) (q ! i)"
    using next_index_least(1) [OF assms, of i q] by blast
  from h mset_heapify [of lt d] a b c e f g s show ?thesis by blast
qed

theorem C9_heapify_witness:
  "is_heap (<) (heapify (<) [5, 3, 8, 1, 9, 2, 7, 3 :: nat])
   \<and> sorted_wrt (\<lambda>x y. \<not> y < x) (drain (<) (heapify (<) [5, 3, 8, 1, 9, 2, 7, 3 :: nat]))
   \<and> drain (<) (heapify (<) [5, 3, 8, 1, 9, 2, 7, 3 :: nat]) = [1, 2, 3, 3, 5, 7, 8, 9]"
proof -
  have o: "strict_weak_order ((<) :: nat \<Rightarrow> nat \<Rightarrow> bool)"
    by (auto simp: strict_weak_order_def)
  have v: "drain (<) (heapify (<) [5, 3, 8, 1, 9, 2, 7, 3 :: nat]) = [1, 2, 3, 3, 5, 7, 8, 9]"
    by code_simp
  from C9_heapify [OF o, of "[5, 3, 8, 1, 9, 2, 7, 3]"] v show ?thesis
    by blast
qed

end
